theory Spec2Isabelle
  imports Main "HOL-Library.Word" "HOL-Library.Monad_Syntax"
begin

unbundle bit_operations_syntax

section \<open>The allocator of \<^verbatim>\<open>Malloc_implementation_lab.c\<close>\<close>

text \<open>
  The allocator works on raw memory through the macros \<^verbatim>\<open>GET\<close> and \<^verbatim>\<open>PUT\<close>, which
  read and write one \<^verbatim>\<open>size_t\<close> (64 bits) at an address. The model keeps the memory as
  a function from addresses to 64-bit words together with the one global variable
  of the file (\<^verbatim>\<open>heap_start\<close>) and the three variables of the memory source
  (\<^verbatim>\<open>memlib\<close>, which is not part of the source file): the lowest address of the heap,
  the current break and the highest address the source can grow to.

  An access is defined only inside the region the memory source has handed out,
  at an address that is a multiple of the word size. Every operation returns
  an \<open>option\<close>: \<open>None\<close> stands for an execution that does not return normally,
  because it reads or writes outside that region (undefined behaviour in C) or
  because a loop never ends.
\<close>

type_synonym addr = "64 word"

record mm_state =
  mem :: "addr \<Rightarrow> 64 word"
  heap_start :: addr
  mem_heap :: addr
  mem_brk :: addr
  mem_max_addr :: addr

subsection \<open>Constants and macros\<close>

definition WSIZE :: "64 word" where "WSIZE = 8"
definition DSIZE :: "64 word" where "DSIZE = 16"
definition CHUNKSIZE :: "64 word" where "CHUNKSIZE = push_bit 12 1"
definition OVERHEAD :: "64 word" where "OVERHEAD = 16"
definition MINIMUMSIZE :: int where "MINIMUMSIZE = 32"
definition NULL :: addr where "NULL = 0"

definition in_heap :: "addr \<Rightarrow> mm_state \<Rightarrow> bool" where
  "in_heap p s \<longleftrightarrow>
     p AND 7 = 0 \<and> mem_heap s \<le> p \<and> unat p + 8 \<le> unat (mem_brk s)"

definition PACK :: "64 word \<Rightarrow> 64 word \<Rightarrow> 64 word" where
  "PACK size' alloc = size' OR alloc"

definition GET :: "addr \<Rightarrow> mm_state \<Rightarrow> 64 word option" where
  "GET p s = (if in_heap p s then Some (mem s p) else None)"

definition PUT :: "addr \<Rightarrow> 64 word \<Rightarrow> mm_state \<Rightarrow> mm_state option" where
  "PUT p val s = (if in_heap p s then Some (s\<lparr>mem := (mem s)(p := val)\<rparr>) else None)"

definition PADD :: "addr \<Rightarrow> 64 word \<Rightarrow> addr" where
  "PADD p val = p + val"

definition PSUB :: "addr \<Rightarrow> 64 word \<Rightarrow> addr" where
  "PSUB p val = p - val"

definition GET_SIZE :: "addr \<Rightarrow> mm_state \<Rightarrow> 64 word option" where
  "GET_SIZE p s = map_option (\<lambda>w. w AND NOT 15) (GET p s)"

definition GET_ALLOC :: "addr \<Rightarrow> mm_state \<Rightarrow> 64 word option" where
  "GET_ALLOC p s = map_option (\<lambda>w. w AND 1) (GET p s)"

definition HDRP :: "addr \<Rightarrow> addr" where
  "HDRP bp = PSUB bp WSIZE"

definition FTRP :: "addr \<Rightarrow> mm_state \<Rightarrow> addr option" where
  "FTRP bp s = do { sz \<leftarrow> GET_SIZE (HDRP bp) s; Some (PADD bp (sz - DSIZE)) }"

definition NEXT_BLKP :: "addr \<Rightarrow> mm_state \<Rightarrow> addr option" where
  "NEXT_BLKP bp s = do { sz \<leftarrow> GET_SIZE (HDRP bp) s; Some (PADD bp sz) }"

definition PREV_BLKP :: "addr \<Rightarrow> mm_state \<Rightarrow> addr option" where
  "PREV_BLKP bp s = do { sz \<leftarrow> GET_SIZE (PSUB bp DSIZE) s; Some (PSUB bp sz) }"

definition PREV_FREE :: "addr \<Rightarrow> mm_state \<Rightarrow> addr option" where
  "PREV_FREE bp s = GET bp s"

definition NEXT_FREE :: "addr \<Rightarrow> mm_state \<Rightarrow> addr option" where
  "NEXT_FREE bp s = GET (bp + WSIZE) s"

definition set_PREV_FREE :: "addr \<Rightarrow> addr \<Rightarrow> mm_state \<Rightarrow> mm_state option" where
  "set_PREV_FREE bp v s = PUT bp v s"

definition set_NEXT_FREE :: "addr \<Rightarrow> addr \<Rightarrow> mm_state \<Rightarrow> mm_state option" where
  "set_NEXT_FREE bp v s = PUT (bp + WSIZE) v s"

subsection \<open>The memory source\<close>

text \<open>
  Modelled from the spec: the heap extension primitive of \<^verbatim>\<open>memlib\<close>, whose code is
  not in the source file. \<open>request(n_bytes) -> region_start | failure\<close> appends
  \<open>n_bytes\<close> to the end of the managed region and returns the old end, or signals
  failure without partial effect. The failure is the value \<open>None\<close> of the first
  component.
\<close>

definition mem_sbrk :: "64 word \<Rightarrow> mm_state \<Rightarrow> addr option \<times> mm_state" where
  "mem_sbrk incr s =
     (if unat (mem_brk s) + unat incr \<le> unat (mem_max_addr s)
      then (Some (mem_brk s), s\<lparr>mem_brk := mem_brk s + incr\<rparr>)
      else (None, s))"

text \<open>
  Modelled from the spec: the pointer that \<^verbatim>\<open>mem_sbrk\<close> returns to its caller. The spec
  does not say by which pointer the failure is reported. \<^verbatim>\<open>extend_heap\<close> recognises it
  with \<^verbatim>\<open>(long)(bp = mem_sbrk(size)) < 0\<close>, the test for the failure value \<^verbatim>\<open>(void *) -1\<close>
  of \<^verbatim>\<open>sbrk\<close>, and the model takes that value. It is not \<^verbatim>\<open>NULL\<close>: no pointer is both
  \<^verbatim>\<open>NULL\<close> and negative as a \<^verbatim>\<open>long\<close>.
\<close>

definition sbrk_failed :: addr where
  "sbrk_failed = - 1"

definition sbrk_result :: "addr option \<Rightarrow> addr" where
  "sbrk_result r = (case r of None \<Rightarrow> sbrk_failed | Some p \<Rightarrow> p)"

text \<open>Modelled from the spec: \<^verbatim>\<open>mem_heap_lo\<close>, the low boundary of the memory source.\<close>

definition mem_heap_lo :: "mm_state \<Rightarrow> addr" where
  "mem_heap_lo s = mem_heap s"

subsection \<open>The free list\<close>

definition insert_head :: "addr \<Rightarrow> mm_state \<Rightarrow> mm_state option" where
  "insert_head bp s = do {
     s1 \<leftarrow> set_NEXT_FREE bp (heap_start s) s;
     s2 \<leftarrow> set_PREV_FREE (heap_start s1) bp s1;
     s3 \<leftarrow> set_PREV_FREE bp NULL s2;
     Some (s3\<lparr>heap_start := bp\<rparr>)
   }"

definition remove_node :: "addr \<Rightarrow> mm_state \<Rightarrow> mm_state option" where
  "remove_node bp s = do {
     prev \<leftarrow> PREV_FREE bp s;
     s1 \<leftarrow> (if prev \<noteq> NULL
            then do { nxt \<leftarrow> NEXT_FREE bp s; set_NEXT_FREE prev nxt s }
            else do { nxt \<leftarrow> NEXT_FREE bp s; Some (s\<lparr>heap_start := nxt\<rparr>) });
     nxt' \<leftarrow> NEXT_FREE bp s1;
     prev' \<leftarrow> PREV_FREE bp s1;
     set_PREV_FREE nxt' prev' s1
   }"

subsection \<open>First fit\<close>

partial_function (option) find_fit_from :: "64 word \<Rightarrow> mm_state \<Rightarrow> addr \<Rightarrow> addr option" where
  "find_fit_from asize s cur_block =
     (if cur_block = mem_heap_lo s then Some NULL
      else do {
        sz \<leftarrow> GET_SIZE (HDRP cur_block) s;
        if asize \<le> sz then Some cur_block
        else do { nxt \<leftarrow> NEXT_FREE cur_block s; find_fit_from asize s nxt }
      })"

declare find_fit_from.simps [code]

definition find_fit :: "64 word \<Rightarrow> mm_state \<Rightarrow> addr option" where
  "find_fit asize s = find_fit_from asize s (heap_start s)"

subsection \<open>Coalescing\<close>

definition coalesce :: "addr \<Rightarrow> mm_state \<Rightarrow> (addr \<times> mm_state) option" where
  "coalesce bp s = do {
     prev_alloc \<leftarrow> GET_ALLOC (PSUB bp DSIZE) s;
     nb \<leftarrow> NEXT_BLKP bp s;
     next_alloc \<leftarrow> GET_ALLOC (HDRP nb) s;
     size' \<leftarrow> GET_SIZE (HDRP bp) s;
     if prev_alloc \<noteq> 0 \<and> next_alloc \<noteq> 0 then do {
       s1 \<leftarrow> insert_head bp s;
       Some (bp, s1)
     }
     else if prev_alloc \<noteq> 0 \<and> next_alloc = 0 then do {
       nb1 \<leftarrow> NEXT_BLKP bp s;
       nsz \<leftarrow> GET_SIZE (HDRP nb1) s;
       let size' = size' + nsz;
       nb2 \<leftarrow> NEXT_BLKP bp s;
       s1 \<leftarrow> remove_node nb2 s;
       s2 \<leftarrow> PUT (HDRP bp) (PACK size' 0) s1;
       ftr \<leftarrow> FTRP bp s2;
       s3 \<leftarrow> PUT ftr (PACK size' 0) s2;
       s4 \<leftarrow> insert_head bp s3;
       Some (bp, s4)
     }
     else if prev_alloc = 0 \<and> next_alloc \<noteq> 0 then do {
       pb \<leftarrow> PREV_BLKP bp s;
       psz \<leftarrow> GET_SIZE (HDRP pb) s;
       let size' = size' + psz;
       bp \<leftarrow> PREV_BLKP bp s;
       s1 \<leftarrow> remove_node bp s;
       s2 \<leftarrow> PUT (HDRP bp) (PACK size' 0) s1;
       ftr \<leftarrow> FTRP bp s2;
       s3 \<leftarrow> PUT ftr (PACK size' 0) s2;
       s4 \<leftarrow> insert_head bp s3;
       Some (bp, s4)
     }
     else do {
       pb \<leftarrow> PREV_BLKP bp s;
       psz \<leftarrow> GET_SIZE (HDRP pb) s;
       nb1 \<leftarrow> NEXT_BLKP bp s;
       nsz \<leftarrow> GET_SIZE (HDRP nb1) s;
       let size' = size' + (psz + nsz);
       pb1 \<leftarrow> PREV_BLKP bp s;
       s1 \<leftarrow> remove_node pb1 s;
       nb2 \<leftarrow> NEXT_BLKP bp s1;
       s2 \<leftarrow> remove_node nb2 s1;
       bp \<leftarrow> PREV_BLKP bp s2;
       s3 \<leftarrow> PUT (HDRP bp) (PACK size' 0) s2;
       ftr \<leftarrow> FTRP bp s3;
       s4 \<leftarrow> PUT ftr (PACK size' 0) s3;
       s5 \<leftarrow> insert_head bp s4;
       Some (bp, s5)
     }
   }"

subsection \<open>Placing a request in a free block\<close>

text \<open>
  \<^verbatim>\<open>int free_space_left = GET_SIZE(HDRP(bp)) - asize;\<close> subtracts in \<^verbatim>\<open>size_t\<close> and
  converts the difference to a 32-bit \<^verbatim>\<open>int\<close>: the low 32 bits, read as two's
  complement.
\<close>

definition free_space_left :: "64 word \<Rightarrow> 64 word \<Rightarrow> int" where
  "free_space_left sz asize = sint (ucast (sz - asize) :: 32 word)"

definition place :: "addr \<Rightarrow> 64 word \<Rightarrow> mm_state \<Rightarrow> mm_state option" where
  "place bp asize s = do {
     sz \<leftarrow> GET_SIZE (HDRP bp) s;
     let fsl = free_space_left sz asize;
     if fsl < MINIMUMSIZE then do {
       sz1 \<leftarrow> GET_SIZE (HDRP bp) s;
       s1 \<leftarrow> PUT (HDRP bp) (PACK sz1 1) s;
       ftr \<leftarrow> FTRP bp s1;
       sz2 \<leftarrow> GET_SIZE (HDRP bp) s1;
       s2 \<leftarrow> PUT ftr (PACK sz2 1) s1;
       remove_node bp s2
     }
     else do {
       s1 \<leftarrow> PUT (HDRP bp) (PACK asize 1) s;
       ftr \<leftarrow> FTRP bp s1;
       s2 \<leftarrow> PUT ftr (PACK asize 1) s1;
       s3 \<leftarrow> remove_node bp s2;
       bp \<leftarrow> NEXT_BLKP bp s3;
       s4 \<leftarrow> PUT (HDRP bp) (PACK (of_int fsl) 0) s3;
       ftr' \<leftarrow> FTRP bp s4;
       s5 \<leftarrow> PUT ftr' (PACK (of_int fsl) 0) s4;
       insert_head bp s5
     }
   }"

subsection \<open>Growing the heap\<close>

definition extend_heap :: "64 word \<Rightarrow> mm_state \<Rightarrow> (addr \<times> mm_state) option" where
  "extend_heap words s =
     (let size' = words * WSIZE;
          size' = (if words mod 2 = 1 then size' + WSIZE else size')
      in case mem_sbrk size' s of
           (None, s0) \<Rightarrow> Some (NULL, s0)
         | (Some bp, s0) \<Rightarrow> do {
             s1 \<leftarrow> PUT (HDRP bp) (PACK size' 0) s0;
             ftr \<leftarrow> FTRP bp s1;
             s2 \<leftarrow> PUT ftr (PACK size' 0) s1;
             nb \<leftarrow> NEXT_BLKP bp s2;
             s3 \<leftarrow> PUT (HDRP nb) (PACK 0 1) s2;
             coalesce bp s3
           })"

subsection \<open>The public operations\<close>

text \<open>
  \<^verbatim>\<open>mm_init\<close> stores the pointer that \<^verbatim>\<open>mem_sbrk\<close> returns in \<^verbatim>\<open>heap_start\<close> and compares
  it with \<^verbatim>\<open>NULL\<close>. When the request has failed the pointer is not \<^verbatim>\<open>NULL\<close>, and
  \<^verbatim>\<open>mm_init\<close> goes on to write through it.
\<close>

definition mm_init :: "mm_state \<Rightarrow> (int \<times> mm_state) option" where
  "mm_init s =
     (case mem_sbrk (4 * WSIZE) s of
        (r, s0) \<Rightarrow>
          let s1 = s0\<lparr>heap_start := sbrk_result r\<rparr> in
          if heap_start s1 = NULL then Some (- 1, s1)
          else do {
            s2 \<leftarrow> PUT (heap_start s1) 0 s1;
            s3 \<leftarrow> PUT (PADD (heap_start s2) WSIZE) (PACK OVERHEAD 1) s2;
            s4 \<leftarrow> PUT (PADD (heap_start s3) DSIZE) (PACK OVERHEAD 1) s3;
            s5 \<leftarrow> PUT (PADD (heap_start s4) (WSIZE + DSIZE)) (PACK 0 1) s4;
            (bp, s6) \<leftarrow> extend_heap (CHUNKSIZE div WSIZE) s5;
            if bp = NULL then Some (- 1, s6) else Some (0, s6)
          })"

definition max_size :: "64 word \<Rightarrow> 64 word \<Rightarrow> 64 word" where
  "max_size x y = (if x > y then x else y)"

text \<open>The adjusted block size that \<^verbatim>\<open>mm_malloc\<close> computes for a request.\<close>

definition adjusted_size :: "64 word \<Rightarrow> 64 word" where
  "adjusted_size size' =
     (if size' \<le> DSIZE then DSIZE + OVERHEAD
      else DSIZE * ((size' + OVERHEAD + (DSIZE - 1)) div DSIZE))"

definition mm_malloc :: "64 word \<Rightarrow> mm_state \<Rightarrow> (addr \<times> mm_state) option" where
  "mm_malloc size' s =
     (if size' \<le> 0 then Some (NULL, s)
      else do {
        let asize = adjusted_size size';
        bp \<leftarrow> find_fit asize s;
        if bp \<noteq> NULL then do {
          s1 \<leftarrow> place bp asize s;
          Some (bp, s1)
        }
        else do {
          let extendsize = max_size asize CHUNKSIZE;
          (bp, s1) \<leftarrow> extend_heap (extendsize div WSIZE) s;
          if bp = NULL then Some (NULL, s1)
          else do {
            s2 \<leftarrow> place bp asize s1;
            Some (bp, s2)
          }
        }
      })"

definition mm_free :: "addr \<Rightarrow> mm_state \<Rightarrow> mm_state option" where
  "mm_free bp s = do {
     size' \<leftarrow> GET_SIZE (HDRP bp) s;
     s1 \<leftarrow> PUT (HDRP bp) (PACK size' 0) s;
     ftr \<leftarrow> FTRP bp s1;
     s2 \<leftarrow> PUT ftr (PACK size' 0) s1;
     (r, s3) \<leftarrow> coalesce bp s2;
     Some s3
   }"

subsection \<open>The heap checker\<close>

definition check_block :: "addr \<Rightarrow> mm_state \<Rightarrow> bool option" where
  "check_block bp s =
     (if bp mod DSIZE \<noteq> 0 then Some False
      else do {
        h \<leftarrow> GET (HDRP bp) s;
        ftr \<leftarrow> FTRP bp s;
        f \<leftarrow> GET ftr s;
        if h \<noteq> f then Some False else Some True
      })"

partial_function (option) check_heap_from :: "mm_state \<Rightarrow> addr \<Rightarrow> bool option" where
  "check_heap_from s bp = do {
     sz \<leftarrow> GET_SIZE (HDRP bp) s;
     if sz > 0 then do {
       ok \<leftarrow> check_block bp s;
       if \<not> ok then Some False
       else do { nb \<leftarrow> NEXT_BLKP bp s; check_heap_from s nb }
     }
     else do {
       al \<leftarrow> GET_ALLOC (HDRP bp) s;
       if sz \<noteq> 0 \<or> al = 0 then Some False else Some True
     }
   }"

declare check_heap_from.simps [code]

definition check_heap :: "mm_state \<Rightarrow> bool option" where
  "check_heap s = do {
     sz \<leftarrow> GET_SIZE (HDRP (heap_start s)) s;
     al \<leftarrow> GET_ALLOC (HDRP (heap_start s)) s;
     if sz \<noteq> DSIZE \<or> al = 0 then Some False
     else check_heap_from s (heap_start s)
   }"


section \<open>Notions used in the statements\<close>

text \<open>
  A memory source on which nothing has been reserved yet: the break is at the low
  boundary, which is a non-null, double-word aligned address.
\<close>

definition fresh :: "mm_state \<Rightarrow> bool" where
  "fresh s \<longleftrightarrow>
     mem_brk s = mem_heap s \<and> mem_heap s \<noteq> 0 \<and> mem_heap s AND 15 = 0 \<and>
     mem_heap s \<le> mem_max_addr s"

definition source :: "addr \<Rightarrow> 64 word \<Rightarrow> mm_state" where
  "source lo cap =
     \<lparr>mem = (\<lambda>_. 0), heap_start = 0, mem_heap = lo, mem_brk = lo, mem_max_addr = lo + cap\<rparr>"

text \<open>The size field of the header of the block with payload pointer \<open>bp\<close>.\<close>

definition block_size :: "mm_state \<Rightarrow> addr \<Rightarrow> 64 word" where
  "block_size s bp = mem s (HDRP bp) AND NOT 15"

text \<open>
  The free list as the scan of \<^verbatim>\<open>find_fit\<close> sees it: the blocks met when following
  the next-links from \<open>cur\<close> up to the low boundary of the heap, each with its header
  and its next-link inside the heap.
\<close>

fun free_path :: "mm_state \<Rightarrow> addr \<Rightarrow> addr list \<Rightarrow> bool" where
  "free_path s cur [] = (cur = mem_heap_lo s)"
| "free_path s cur (b # bs) =
     (cur = b \<and> b \<noteq> mem_heap_lo s \<and> in_heap (HDRP b) s \<and> in_heap (b + WSIZE) s \<and>
      free_path s (mem s (b + WSIZE)) bs)"

definition first_fit :: "64 word \<Rightarrow> mm_state \<Rightarrow> addr list \<Rightarrow> addr" where
  "first_fit asize s bs =
     (case List.find (\<lambda>b. asize \<le> block_size s b) bs of None \<Rightarrow> NULL | Some b \<Rightarrow> b)"

section \<open>The layout of the heap and of the free list\<close>

text \<open>
  The statements about whole heaps describe a state by the list of its blocks in
  address order, each with its size in bytes and its allocated flag, and by the
  list of the payload addresses of the free list in list order. Addresses and
  sizes are natural numbers there; \<open>wa\<close> turns them into machine words.
\<close>

definition wa :: "nat \<Rightarrow> 64 word" where
  "wa x = of_nat x"

type_synonym block = "nat \<times> bool"

text \<open>The boundary tag of a block: \<^verbatim>\<open>PACK(size, alloc)\<close>.\<close>

definition tag :: "nat \<Rightarrow> bool \<Rightarrow> 64 word" where
  "tag sz al = PACK (wa sz) (of_bool al)"

text \<open>An address at which \<^verbatim>\<open>GET\<close> and \<^verbatim>\<open>PUT\<close> are defined.\<close>

definition cell :: "mm_state \<Rightarrow> nat \<Rightarrow> bool" where
  "cell s x \<longleftrightarrow> 8 dvd x \<and> unat (mem_heap s) \<le> x \<and> x + 8 \<le> unat (mem_brk s)"

fun total_size :: "block list \<Rightarrow> nat" where
  "total_size [] = 0"
| "total_size ((sz, al) # bs) = sz + total_size bs"

text \<open>
  The blocks \<open>bs\<close> lie one after the other from the payload address \<open>a\<close> on: each is
  at least 32 bytes long, a multiple of 16, and carries its tag in its header
  and in its footer.
\<close>

fun blocks_seg :: "(addr \<Rightarrow> 64 word) \<Rightarrow> nat \<Rightarrow> block list \<Rightarrow> bool" where
  "blocks_seg m a [] = True"
| "blocks_seg m a ((sz, al) # bs) =
     (16 dvd sz \<and> 32 \<le> sz \<and> m (wa (a - 8)) = tag sz al \<and> m (wa (a + sz - 16)) = tag sz al \<and>
      blocks_seg m (a + sz) bs)"

text \<open>The payload addresses of the free blocks and of the allocated blocks.\<close>

fun free_addrs :: "nat \<Rightarrow> block list \<Rightarrow> nat list" where
  "free_addrs a [] = []"
| "free_addrs a ((sz, al) # bs) = (if al then free_addrs (a + sz) bs else a # free_addrs (a + sz) bs)"


text \<open>The payload addresses of all blocks, and the addresses of their headers and footers.\<close>

fun addrs :: "nat \<Rightarrow> block list \<Rightarrow> nat list" where
  "addrs a [] = []"
| "addrs a ((sz, al) # bs) = a # addrs (a + sz) bs"

fun tag_cells :: "nat \<Rightarrow> block list \<Rightarrow> nat list" where
  "tag_cells a [] = []"
| "tag_cells a ((sz, al) # bs) = (a - 8) # (a + sz - 16) # tag_cells (a + sz) bs"

text \<open>No two blocks that follow each other are both free.\<close>

fun no_adjacent_free :: "block list \<Rightarrow> bool" where
  "no_adjacent_free [] = True"
| "no_adjacent_free [b] = True"
| "no_adjacent_free (b # c # bs) = ((snd b \<or> snd c) \<and> no_adjacent_free (c # bs))"

text \<open>
  The free list: \<open>cur\<close> points to the first node, whose previous-link is \<open>prev\<close>; the
  next-link of the last node is the low boundary \<open>lo\<close> of the heap.
\<close>

fun dlist :: "(addr \<Rightarrow> 64 word) \<Rightarrow> addr \<Rightarrow> addr \<Rightarrow> addr \<Rightarrow> nat list \<Rightarrow> bool" where
  "dlist m lo prev cur [] = (cur = lo)"
| "dlist m lo prev cur (x # xs) =
     (cur = wa x \<and> m (wa x) = prev \<and> dlist m lo (wa x) (m (wa (x + 8))) xs)"

text \<open>
  The heap between the low boundary and the break: a padding word, the prologue
  block, the blocks \<open>bs\<close> and the epilogue header.
\<close>

definition heap_shape :: "mm_state \<Rightarrow> block list \<Rightarrow> bool" where
  "heap_shape s bs \<longleftrightarrow>
     0 < unat (mem_heap s) \<and> 16 dvd unat (mem_heap s) \<and>
     unat (mem_brk s) \<le> unat (mem_max_addr s) \<and>
     mem s (wa (unat (mem_heap s) + 8)) = tag 16 True \<and>
     mem s (wa (unat (mem_heap s) + 16)) = tag 16 True \<and>
     blocks_seg (mem s) (unat (mem_heap s) + 32) bs \<and>
     unat (mem_heap s) + 32 + total_size bs = unat (mem_brk s) \<and>
     mem s (wa (unat (mem_brk s) - 8)) = tag 0 True"


definition free_list :: "mm_state \<Rightarrow> nat list \<Rightarrow> bool" where
  "free_list s fl \<longleftrightarrow> dlist (mem s) (mem_heap s) NULL (heap_start s) fl \<and> distinct fl"

text \<open>The payload address of the first block after the prologue.\<close>

definition base :: "mm_state \<Rightarrow> nat" where
  "base s = unat (mem_heap s) + 32"

definition heap_inv :: "mm_state \<Rightarrow> block list \<Rightarrow> nat list \<Rightarrow> bool" where
  "heap_inv s bs fl \<longleftrightarrow>
     heap_shape s bs \<and> free_list s fl \<and> no_adjacent_free bs \<and>
     set fl = set (free_addrs (base s) bs)"

text \<open>
  What the layout says without looking at the contents of the memory: the bounds
  of the memory source, the sizes of the blocks, and the free-list nodes being
  payload addresses of blocks.
\<close>

definition sizes_ok :: "block list \<Rightarrow> bool" where
  "sizes_ok bs = list_all (\<lambda>b. 16 dvd fst b \<and> 32 \<le> fst b) bs"

definition nodes_ok :: "nat \<Rightarrow> nat \<Rightarrow> nat list \<Rightarrow> bool" where
  "nodes_ok L B xs = list_all (\<lambda>x. 16 dvd x \<and> L + 32 \<le> x \<and> x + 32 \<le> B) xs"

definition geom :: "mm_state \<Rightarrow> block list \<Rightarrow> bool" where
  "geom s bs \<longleftrightarrow>
     0 < unat (mem_heap s) \<and> 16 dvd unat (mem_heap s) \<and>
     unat (mem_brk s) \<le> unat (mem_max_addr s) \<and>
     sizes_ok bs \<and> base s + total_size bs = unat (mem_brk s)"

text \<open>The cells that hold the tags of the prologue, of the blocks and of the epilogue.\<close>

definition shape_cells :: "mm_state \<Rightarrow> block list \<Rightarrow> nat list" where
  "shape_cells s bs =
     (unat (mem_heap s) + 8) # (unat (mem_heap s) + 16) # (unat (mem_brk s) - 8) #
     tag_cells (base s) bs"

text \<open>
  Two states of the same memory source, and two states whose memories hold the
  same words in the cells \<open>ts\<close>.
\<close>

definition same_src :: "mm_state \<Rightarrow> mm_state \<Rightarrow> bool" where
  "same_src s s' \<longleftrightarrow>
     mem_heap s' = mem_heap s \<and> mem_brk s' = mem_brk s \<and> mem_max_addr s' = mem_max_addr s"

definition same_cells :: "nat list \<Rightarrow> mm_state \<Rightarrow> mm_state \<Rightarrow> bool" where
  "same_cells ts s s' = list_all (\<lambda>t. mem s' (wa t) = mem s (wa t)) ts"

text \<open>
  The tag cells outside a stretch of \<open>n\<close> bytes that follows the blocks \<open>pre\<close> and is
  followed by the blocks \<open>post\<close>.
\<close>

definition kept_cells :: "mm_state \<Rightarrow> block list \<Rightarrow> nat \<Rightarrow> block list \<Rightarrow> nat list" where
  "kept_cells s pre n post =
     (unat (mem_heap s) + 8) # (unat (mem_heap s) + 16) # (unat (mem_brk s) - 8) #
     tag_cells (base s) pre @ tag_cells (base s + total_size pre + n) post"

text \<open>
  The state in which \<^verbatim>\<open>coalesce\<close> is called: the block of \<open>sz\<close> bytes between the
  blocks \<open>pre\<close> and the blocks \<open>post\<close> is marked free and is not in the free list,
  which holds the free blocks of \<open>pre\<close> and \<open>post\<close>.
\<close>

definition coalesce_pre :: "mm_state \<Rightarrow> block list \<Rightarrow> nat \<Rightarrow> block list \<Rightarrow> nat list \<Rightarrow> bool" where
  "coalesce_pre s pre sz post fl \<longleftrightarrow>
     heap_shape s (pre @ (sz, False) # post) \<and> free_list s fl \<and>
     no_adjacent_free pre \<and> no_adjacent_free post \<and>
     set fl = set (free_addrs (base s) pre) \<union> set (free_addrs (base s + total_size pre + sz) post)"

text \<open>The allocated flag that \<^verbatim>\<open>coalesce\<close> reads for the previous and for the next block.\<close>

definition prev_alloc_of :: "block list \<Rightarrow> bool" where
  "prev_alloc_of pre = (if pre = [] then True else snd (last pre))"

definition next_alloc_of :: "block list \<Rightarrow> bool" where
  "next_alloc_of post = (if post = [] then True else snd (hd post))"

text \<open>
  What \<^verbatim>\<open>coalesce\<close> makes of such a state, in its four cases: the payload address of
  the merged block, the blocks of the heap and the free list.
\<close>

definition coalesce_result ::
  "block list \<Rightarrow> nat \<Rightarrow> block list \<Rightarrow> nat \<Rightarrow> nat list \<Rightarrow> nat \<times> block list \<times> nat list" where
  "coalesce_result pre sz post a fl =
     (if prev_alloc_of pre \<and> next_alloc_of post then
        (a, pre @ (sz, False) # post, a # fl)
      else if prev_alloc_of pre \<and> \<not> next_alloc_of post then
        (a, pre @ (sz + fst (hd post), False) # tl post, a # remove1 (a + sz) fl)
      else if \<not> prev_alloc_of pre \<and> next_alloc_of post then
        (a - fst (last pre), butlast pre @ (sz + fst (last pre), False) # post,
         (a - fst (last pre)) # remove1 (a - fst (last pre)) fl)
      else
        (a - fst (last pre),
         butlast pre @ (sz + (fst (last pre) + fst (hd post)), False) # tl post,
         (a - fst (last pre)) # remove1 (a + sz) (remove1 (a - fst (last pre)) fl)))"

section \<open>Sequences of requests\<close>






section \<open>Runs of the allocator\<close>

text \<open>
  The runs below start from a memory source at address 4096. They are used to
  evaluate the code on concrete requests.
\<close>

definition after_init :: "mm_state option" where
  "after_init = map_option snd (mm_init (source 4096 1048576))"

text \<open>
  A source that cannot hand out the first 32 bytes, and a source that can hand
  them out but not the first chunk.
\<close>

definition init_no_room :: "(int \<times> mm_state) option" where
  "init_no_room = mm_init (source 4096 16)"

definition init_small :: "(int \<times> mm_state) option" where
  "init_small = mm_init (source 4096 100)"

text \<open>
  A request of \<open>2^64 - 31\<close> bytes after one ordinary request: the sum
  \<^verbatim>\<open>size + OVERHEAD + (DSIZE - 1)\<close> wraps around to 0.
\<close>

definition run_wrap :: "(addr \<times> addr \<times> mm_state) option" where
  "run_wrap = do {
     s \<leftarrow> after_init;
     (a, s) \<leftarrow> mm_malloc 16 s;
     (h, s) \<leftarrow> mm_malloc (2 ^ 64 - 31) s;
     Some (a, h, s)
   }"

definition run_wrap_first :: "(addr \<times> mm_state) option" where
  "run_wrap_first = do { s \<leftarrow> after_init; mm_malloc (2 ^ 64 - 31) s }"

text \<open>
  The block returned for the wrapping request is still in the free list. It is
  freed once, handed out again twice, and the second time it is split although
  it is allocated.
\<close>

definition run_adjacent :: "mm_state option" where
  "run_adjacent = do {
     s \<leftarrow> after_init;
     (a, s) \<leftarrow> mm_malloc 16 s;
     (b, s) \<leftarrow> mm_malloc 16 s;
     (h, s) \<leftarrow> mm_malloc (2 ^ 64 - 31) s;
     s \<leftarrow> mm_free a s;
     s \<leftarrow> mm_free h s;
     (q, s) \<leftarrow> mm_malloc 3984 s;
     (c, s) \<leftarrow> mm_malloc 100 s;
     Some s
   }"

text \<open>Runs on a source of \<open>2^40\<close> bytes, with one block larger than \<open>2^31\<close> bytes.\<close>

definition run_large :: "64 word \<Rightarrow> mm_state option" where
  "run_large n = do {
     (r, s) \<leftarrow> mm_init (source 4096 (2 ^ 40));
     (a, s) \<leftarrow> mm_malloc n s;
     mm_free a s
   }"

text \<open>
  Four blocks of 32 bytes are allocated, the first and the third are freed, and
  the second is marked free: the state in which \<^verbatim>\<open>mm_free\<close> calls \<^verbatim>\<open>coalesce\<close> with both
  neighbours free.
\<close>

definition before_coalesce :: "mm_state option" where
  "before_coalesce = do {
     s \<leftarrow> after_init;
     (a, s) \<leftarrow> mm_malloc 16 s;
     (b, s) \<leftarrow> mm_malloc 16 s;
     (c, s) \<leftarrow> mm_malloc 16 s;
     (d, s) \<leftarrow> mm_malloc 16 s;
     s \<leftarrow> mm_free a s;
     s \<leftarrow> mm_free c s;
     s \<leftarrow> PUT (HDRP b) (PACK 32 0) s;
     ftr \<leftarrow> FTRP b s;
     PUT ftr (PACK 32 0) s
   }"


text \<open>
  Four blocks of 128, 32, 32 and 32 bytes are allocated, and the first and the
  third are freed: the free list holds the blocks at 4288 (32 bytes), 4128 (128
  bytes) and 4352 (3872 bytes), in this order.
\<close>

definition three_free :: "mm_state option" where
  "three_free = do {
     s \<leftarrow> after_init;
     (a, s) \<leftarrow> mm_malloc 100 s;
     (b, s) \<leftarrow> mm_malloc 16 s;
     (c, s) \<leftarrow> mm_malloc 16 s;
     (d, s) \<leftarrow> mm_malloc 16 s;
     s \<leftarrow> mm_free a s;
     mm_free c s
   }"

section \<open>Evaluating the definitions\<close>

lemmas mm_defs =
  mm_init_def mem_sbrk_def WSIZE_def DSIZE_def PUT_def in_heap_def PADD_def PACK_def
  OVERHEAD_def extend_heap_def CHUNKSIZE_def HDRP_def PSUB_def FTRP_def GET_SIZE_def
  GET_def NEXT_BLKP_def coalesce_def GET_ALLOC_def insert_head_def set_NEXT_FREE_def
  set_PREV_FREE_def NULL_def mm_malloc_def adjusted_size_def find_fit_def place_def
  free_space_left_def MINIMUMSIZE_def remove_node_def PREV_FREE_def NEXT_FREE_def
  mem_heap_lo_def PREV_BLKP_def mm_free_def max_size_def check_heap_def check_block_def
  source_def sbrk_result_def sbrk_failed_def

subsection \<open>Words and natural numbers\<close>

lemma mask4: "(15 :: 64 word) = mask 4"
  by (simp add: mask_eq_exp_minus_1)

lemma low_bits_clear: "(w :: 64 word) AND 15 = 0 \<Longrightarrow> n < 4 \<Longrightarrow> \<not> bit w n"
proof
  assume a: "w AND 15 = 0" and n: "n < 4" and b: "bit w n"
  have "bit (w AND mask 4) n" using n b by (simp add: bit_simps)
  with a show False by (simp add: mask4)
qed

lemma size_of_free_tag: "(w :: 64 word) AND 15 = 0 \<Longrightarrow> w AND NOT 15 = w"
  unfolding mask4 by (rule bit_word_eqI) (auto simp: bit_simps dest: low_bits_clear [unfolded mask4])

lemma size_of_alloc_tag: "(w :: 64 word) AND 15 = 0 \<Longrightarrow> (w OR 1) AND NOT 15 = w"
  unfolding mask4 by (rule bit_word_eqI) (auto simp: bit_simps dest: low_bits_clear [unfolded mask4])

lemma alloc_of_alloc_tag: "((w :: 64 word) OR 1) AND 1 = 1"
  by (rule bit_word_eqI) (auto simp: bit_simps)

lemma alloc_of_free_tag: "(w :: 64 word) AND 15 = 0 \<Longrightarrow> w AND 1 = 0"
proof -
  assume "w AND 15 = 0"
  then have "\<not> bit w 0" by (rule low_bits_clear) simp
  then show ?thesis
    by (intro bit_word_eqI) (auto simp: bit_simps intro!: gr0I)
qed

lemma wa_add: "wa x + wa y = wa (x + y)" by (simp add: wa_def)
lemma wa_add_num: "wa x + numeral k = wa (x + numeral k)" by (simp add: wa_def)
lemma wa_sub: "y \<le> x \<Longrightarrow> wa x - wa y = wa (x - y)" by (simp add: wa_def)
lemma wa_sub_num: "numeral k \<le> x \<Longrightarrow> wa x - numeral k = wa (x - numeral k)" by (simp add: wa_def)
lemma wa_unat: "wa (unat w) = w" by (simp add: wa_def)
lemma unat_wa: "x < 2 ^ 64 \<Longrightarrow> unat (wa x) = x" by (simp add: wa_def unat_of_nat)
lemma wa_inj: "x < 2 ^ 64 \<Longrightarrow> y < 2 ^ 64 \<Longrightarrow> (wa x = wa y) = (x = y)"
  by (metis unat_wa)
lemma wa_numeral: "wa (numeral k) = numeral k" by (simp add: wa_def)
lemma wa_0: "wa 0 = 0" by (simp add: wa_def)
lemma wa_eq_0: "x < 2 ^ 64 \<Longrightarrow> (wa x = 0) = (x = 0)"
  using wa_inj [of x 0] by (simp add: wa_0)

lemma wa_aligned: "16 dvd x \<Longrightarrow> wa x AND 15 = 0"
proof -
  assume "16 dvd x"
  then obtain k where "x = 16 * k" ..
  then have "wa x = push_bit 4 (wa k)" by (simp add: wa_def push_bit_eq_mult)
  then show ?thesis unfolding mask4 by (simp add: bit_eq_iff bit_simps)
qed

lemma tag_size: "16 dvd sz \<Longrightarrow> tag sz al AND NOT 15 = wa sz"
  by (cases al) (simp_all only: tag_def PACK_def of_bool_eq size_of_free_tag size_of_alloc_tag wa_aligned or.right_neutral)

lemma tag_alloc: "16 dvd sz \<Longrightarrow> tag sz al AND 1 = of_bool al"
  by (cases al) (simp_all only: tag_def PACK_def of_bool_eq alloc_of_alloc_tag alloc_of_free_tag wa_aligned or.right_neutral)

lemma tag_free_eq: "PACK (wa sz) 0 = tag sz False" by (simp add: tag_def)

subsection \<open>Accesses\<close>

lemma cell_bound: "cell s x \<Longrightarrow> x < 2 ^ 64"
  using unsigned_less [of "mem_brk s", where 'a = nat] by (simp add: cell_def)

lemma in_heap_wa: "cell s x \<Longrightarrow> in_heap (wa x) s"
proof -
  assume c: "cell s x"
  then have b: "x < 2 ^ 64" by (rule cell_bound)
  have "(wa x AND mask 3 = 0) = (2 ^ 3 dvd unat (wa x :: 64 word))"
    by (simp only: and_mask_dvd_nat)
  with c b show ?thesis
    by (simp add: in_heap_def cell_def unat_wa word_le_nat_alt mask_eq_exp_minus_1)
qed

lemma cell_mem_update [simp]: "cell (s\<lparr>mem := m\<rparr>) x = cell s x"
  by (simp add: cell_def)

lemma cell_heap_start_update [simp]: "cell (s\<lparr>heap_start := h\<rparr>) x = cell s x"
  by (simp add: cell_def)

lemma GET_wa: "cell s x \<Longrightarrow> GET (wa x) s = Some (mem s (wa x))"
  by (simp add: GET_def in_heap_wa)

lemma PUT_wa: "cell s x \<Longrightarrow> PUT (wa x) v s = Some (s\<lparr>mem := (mem s)(wa x := v)\<rparr>)"
  by (simp add: PUT_def in_heap_wa)

lemma GET_SIZE_wa:
  "cell s x \<Longrightarrow> mem s (wa x) = tag sz al \<Longrightarrow> 16 dvd sz \<Longrightarrow> GET_SIZE (wa x) s = Some (wa sz)"
  by (simp only: GET_SIZE_def GET_wa option.map tag_size)

lemma GET_ALLOC_wa:
  "cell s x \<Longrightarrow> mem s (wa x) = tag sz al \<Longrightarrow> 16 dvd sz \<Longrightarrow> GET_ALLOC (wa x) s = Some (of_bool al)"
  by (simp only: GET_ALLOC_def GET_wa option.map tag_alloc)

lemma HDRP_wa: "8 \<le> x \<Longrightarrow> HDRP (wa x) = wa (x - 8)"
  by (simp add: HDRP_def PSUB_def WSIZE_def wa_sub_num)

lemma FTRP_wa:
  "cell s (a - 8) \<Longrightarrow> 8 \<le> a \<Longrightarrow> mem s (wa (a - 8)) = tag sz al \<Longrightarrow> 16 dvd sz \<Longrightarrow> 16 \<le> sz \<Longrightarrow>
   FTRP (wa a) s = Some (wa (a + sz - 16))"
  by (simp add: FTRP_def HDRP_wa GET_SIZE_wa PADD_def DSIZE_def wa_sub_num wa_add)

lemma NEXT_BLKP_wa:
  "cell s (a - 8) \<Longrightarrow> 8 \<le> a \<Longrightarrow> mem s (wa (a - 8)) = tag sz al \<Longrightarrow> 16 dvd sz \<Longrightarrow>
   NEXT_BLKP (wa a) s = Some (wa (a + sz))"
  by (simp add: NEXT_BLKP_def HDRP_wa GET_SIZE_wa PADD_def wa_add)

lemma PREV_BLKP_wa:
  "cell s (a - 16) \<Longrightarrow> 16 \<le> a \<Longrightarrow> mem s (wa (a - 16)) = tag sz al \<Longrightarrow> 16 dvd sz \<Longrightarrow> sz \<le> a \<Longrightarrow>
   PREV_BLKP (wa a) s = Some (wa (a - sz))"
  by (simp add: PREV_BLKP_def GET_SIZE_wa PSUB_def DSIZE_def wa_sub_num wa_sub)

subsection \<open>Layout\<close>

lemma total_append [simp]: "total_size (xs @ ys) = total_size xs + total_size ys"
  by (induction xs) auto

lemma blocks_seg_append:
  "blocks_seg m a (xs @ ys) = (blocks_seg m a xs \<and> blocks_seg m (a + total_size xs) ys)"
  by (induction xs arbitrary: a) (auto simp: add.assoc)

lemma addrs_append: "addrs a (xs @ ys) = addrs a xs @ addrs (a + total_size xs) ys"
  by (induction xs arbitrary: a) (auto simp: add.assoc)

lemma free_addrs_append:
  "free_addrs a (xs @ ys) = free_addrs a xs @ free_addrs (a + total_size xs) ys"
  by (induction xs arbitrary: a) (auto simp: add.assoc)


lemma tag_cells_append:
  "tag_cells a (xs @ ys) = tag_cells a xs @ tag_cells (a + total_size xs) ys"
  by (induction xs arbitrary: a) (auto simp: add.assoc)

lemma free_addrs_in_addrs: "x \<in> set (free_addrs a bs) \<Longrightarrow> x \<in> set (addrs a bs)"
  by (induction bs arbitrary: a) (auto split: if_splits)

lemma free_addrs_subset: "set (free_addrs a bs) \<subseteq> set (addrs a bs)"
  using free_addrs_in_addrs by blast



lemma sizes_ok_Cons [simp]:
  "sizes_ok ((sz, al) # bs) = ((16 dvd sz \<and> 32 \<le> sz) \<and> sizes_ok bs)"
  by (simp add: sizes_ok_def)

lemma sizes_ok_Nil [simp]: "sizes_ok []"
  by (simp add: sizes_ok_def)

lemma sizes_ok_append [simp]: "sizes_ok (xs @ ys) = (sizes_ok xs \<and> sizes_ok ys)"
  by (simp add: sizes_ok_def)

lemma blocks_seg_sizes: "blocks_seg m a bs \<Longrightarrow> sizes_ok bs"
  by (induction bs arbitrary: a) auto

lemma addrs_range:
  "sizes_ok bs \<Longrightarrow> x \<in> set (addrs a bs) \<Longrightarrow> a \<le> x \<and> x + 32 \<le> a + total_size bs"
proof (induction bs arbitrary: a)
  case Nil
  then show ?case by simp
next
  case (Cons b bs)
  obtain sz al where b: "b = (sz, al)" by (cases b)
  from Cons.prems b have seg: "sizes_ok bs" and sz: "32 \<le> sz" by simp_all
  show ?case
  proof (cases "x = a")
    case True
    with b sz show ?thesis by simp
  next
    case False
    with Cons.prems b have "x \<in> set (addrs (a + sz) bs)" by simp
    from Cons.IH [OF seg this] b show ?thesis by simp
  qed
qed

lemma addrs_aligned:
  "sizes_ok bs \<Longrightarrow> 16 dvd a \<Longrightarrow> x \<in> set (addrs a bs) \<Longrightarrow> 16 dvd x"
proof (induction bs arbitrary: a)
  case Nil
  then show ?case by simp
next
  case (Cons b bs)
  obtain sz al where b: "b = (sz, al)" by (cases b)
  from Cons.prems b have seg: "sizes_ok bs" and sz: "16 dvd sz" by simp_all
  show ?case
  proof (cases "x = a")
    case True
    with Cons.prems show ?thesis by simp
  next
    case False
    with Cons.prems b have "x \<in> set (addrs (a + sz) bs)" by simp
    moreover from sz Cons.prems(2) have "16 dvd a + sz" by simp
    ultimately show ?thesis using Cons.IH [OF seg] by blast
  qed
qed

lemma total_aligned: "sizes_ok bs \<Longrightarrow> 16 dvd total_size bs"
  by (induction bs) auto

lemma tag_cells_range:
  "sizes_ok bs \<Longrightarrow> 8 \<le> a \<Longrightarrow> t \<in> set (tag_cells a bs) \<Longrightarrow>
   a \<le> t + 8 \<and> t + 16 \<le> a + total_size bs"
proof (induction bs arbitrary: a)
  case Nil
  then show ?case by simp
next
  case (Cons b bs)
  obtain sz al where b: "b = (sz, al)" by (cases b)
  from Cons.prems b have seg: "sizes_ok bs" and sz: "32 \<le> sz" by simp_all
  show ?case
  proof (cases "t = a - 8 \<or> t = a + sz - 16")
    case True
    with b sz Cons.prems(2) show ?thesis by auto
  next
    case False
    with Cons.prems b have "t \<in> set (tag_cells (a + sz) bs)" by simp
    from Cons.IH [OF seg _ this] Cons.prems(2) b show ?thesis by simp
  qed
qed

lemma distinct_addrs: "sizes_ok bs \<Longrightarrow> distinct (addrs a bs)"
proof (induction bs arbitrary: a)
  case Nil
  then show ?case by simp
next
  case (Cons b bs)
  obtain sz al where b: "b = (sz, al)" by (cases b)
  from Cons.prems b have seg: "sizes_ok bs" and sz: "32 \<le> sz" by simp_all
  have "a \<notin> set (addrs (a + sz) bs)"
    using addrs_range [OF seg, of a "a + sz"] sz by auto
  with Cons.IH [OF seg] b show ?case by simp
qed

lemma distinct_free_addrs: "sizes_ok bs \<Longrightarrow> distinct (free_addrs a bs)"
proof (induction bs arbitrary: a)
  case Nil
  then show ?case by simp
next
  case (Cons b bs)
  obtain sz al where b: "b = (sz, al)" by (cases b)
  from Cons.prems b have seg: "sizes_ok bs" and sz: "32 \<le> sz" by simp_all
  have "a \<notin> set (addrs (a + sz) bs)"
    using addrs_range [OF seg, of a "a + sz"] sz by auto
  then have "a \<notin> set (free_addrs (a + sz) bs)"
    using free_addrs_subset by blast
  with Cons.IH [OF seg] b show ?case by simp
qed

lemma links_not_tags:
  "sizes_ok bs \<Longrightarrow> 8 \<le> a \<Longrightarrow> x \<in> set (addrs a bs) \<Longrightarrow>
   x \<notin> set (tag_cells a bs) \<and> x + 8 \<notin> set (tag_cells a bs)"
proof (induction bs arbitrary: a)
  case Nil
  then show ?case by simp
next
  case (Cons b bs)
  obtain sz al where b: "b = (sz, al)" by (cases b)
  from Cons.prems b have seg: "sizes_ok bs" and sz: "32 \<le> sz" by simp_all
  show ?case
  proof (cases "x = a")
    case True
    have "\<And>t. t \<in> set (tag_cells (a + sz) bs) \<Longrightarrow> a + sz \<le> t + 8"
      using tag_cells_range [OF seg] Cons.prems(2) by auto
    then have "a \<notin> set (tag_cells (a + sz) bs)" "a + 8 \<notin> set (tag_cells (a + sz) bs)"
      using sz by fastforce+
    with True b sz Cons.prems(2) show ?thesis by auto
  next
    case False
    with Cons.prems b have x: "x \<in> set (addrs (a + sz) bs)" by simp
    from addrs_range [OF seg x] have "a + sz \<le> x" by simp
    moreover from Cons.IH [OF seg _ x] Cons.prems(2)
    have "x \<notin> set (tag_cells (a + sz) bs) \<and> x + 8 \<notin> set (tag_cells (a + sz) bs)" by simp
    ultimately show ?thesis using b sz by auto
  qed
qed

lemma blocks_seg_cong:
  "(\<And>t. t \<in> set (tag_cells a bs) \<Longrightarrow> m' (wa t) = m (wa t)) \<Longrightarrow>
   blocks_seg m' a bs = blocks_seg m a bs"
  by (induction bs arbitrary: a) auto



lemma no_adjacent_free_Cons:
  "no_adjacent_free (b # ys) = (no_adjacent_free ys \<and> (ys = [] \<or> snd b \<or> snd (hd ys)))"
  by (cases ys) auto

lemma no_adjacent_free_append:
  "no_adjacent_free (xs @ ys) =
     (no_adjacent_free xs \<and> no_adjacent_free ys \<and>
      (xs = [] \<or> ys = [] \<or> snd (last xs) \<or> snd (hd ys)))"
proof (induction xs)
  case Nil
  then show ?case by simp
next
  case (Cons b xs)
  show ?case
  proof (cases xs)
    case Nil
    then show ?thesis by (simp add: no_adjacent_free_Cons)
  next
    case (Cons c cs)
    with Cons.IH show ?thesis by (auto simp: no_adjacent_free_Cons)
  qed
qed

subsection \<open>The free list in memory\<close>

lemma nodes_okD:
  "nodes_ok L B xs \<Longrightarrow> x \<in> set xs \<Longrightarrow> 16 dvd x \<and> L + 32 \<le> x \<and> x + 32 \<le> B"
  by (simp add: nodes_ok_def list_all_iff)

lemma nodes_ok_Cons [simp]:
  "nodes_ok L B (x # xs) = ((16 dvd x \<and> L + 32 \<le> x \<and> x + 32 \<le> B) \<and> nodes_ok L B xs)"
  by (simp add: nodes_ok_def)

lemma nodes_ok_append [simp]:
  "nodes_ok L B (xs @ ys) = (nodes_ok L B xs \<and> nodes_ok L B ys)"
  by (simp add: nodes_ok_def)

lemma nodes_ok_subset: "nodes_ok L B xs \<Longrightarrow> set ys \<subseteq> set xs \<Longrightarrow> nodes_ok L B ys"
  by (auto simp: nodes_ok_def list_all_iff)

lemma aligned_off8: "16 dvd (x :: nat) \<Longrightarrow> 16 dvd y \<Longrightarrow> x + 8 \<noteq> y"
  by presburger

lemma dlist_cong:
  "(\<And>x. x \<in> set xs \<Longrightarrow> m' (wa x) = m (wa x) \<and> m' (wa (x + 8)) = m (wa (x + 8))) \<Longrightarrow>
   dlist m' lo p c xs = dlist m lo p c xs"
  by (induction xs arbitrary: p c) auto

lemma dlist_head: "dlist m lo p c xs \<Longrightarrow> c = (if xs = [] then lo else wa (hd xs))"
  by (cases xs) auto

text \<open>Writing one cell that is no link of the list.\<close>

lemma dlist_upd_other:
  assumes "nodes_ok L B xs" "B < 2 ^ 64" "w < 2 ^ 64"
    and "\<And>x. x \<in> set xs \<Longrightarrow> w \<noteq> x \<and> w \<noteq> x + 8"
  shows "dlist (m(wa w := v)) lo p c xs = dlist m lo p c xs"
proof (rule dlist_cong)
  fix x assume x: "x \<in> set xs"
  from nodes_okD [OF assms(1) x] assms(2) have "x + 8 < 2 ^ 64" by simp
  with assms(3) assms(4) [OF x] show
    "(m(wa w := v)) (wa x) = m (wa x) \<and> (m(wa w := v)) (wa (x + 8)) = m (wa (x + 8))"
    by (simp add: wa_inj)
qed

text \<open>Writing the previous-link of the first node, or the word at the low boundary.\<close>

lemma dlist_set_prev:
  assumes d: "dlist m (wa L) q n zs" and dist: "distinct zs"
    and ok: "nodes_ok L B zs" and B: "B < 2 ^ 64"
  shows "dlist (m(n := p')) (wa L) p' n zs"
proof (cases zs)
  case Nil
  with d show ?thesis by simp
next
  case (Cons z zs')
  with d have n: "n = wa z" and rest: "dlist m (wa L) (wa z) (m (wa (z + 8))) zs'" by simp_all
  from ok Cons B have z: "16 dvd z" "z + 8 < 2 ^ 64" and ok': "nodes_ok L B zs'" by simp_all
  have "dlist (m(wa z := p')) (wa L) (wa z) (m (wa (z + 8))) zs' =
        dlist m (wa L) (wa z) (m (wa (z + 8))) zs'"
  proof (rule dlist_upd_other [OF ok' B])
    show "z < 2 ^ 64" using z by simp
    fix x assume x: "x \<in> set zs'"
    from nodes_okD [OF ok' x] have "16 dvd x" by simp
    with x dist Cons z show "z \<noteq> x \<and> z \<noteq> x + 8" using aligned_off8 [of x z] by auto
  qed
  with rest n Cons z show ?thesis by (simp add: wa_inj)
qed

text \<open>The effect of \<^verbatim>\<open>insert_head\<close> on the list.\<close>

lemma dlist_insert:
  assumes d: "dlist m (wa L) NULL h fl" and dist: "distinct fl" and b: "b \<notin> set fl"
    and ok: "nodes_ok L B (b # fl)" and B: "B < 2 ^ 64" and L: "16 dvd L"
  shows "dlist (m(wa (b + 8) := h, h := wa b, wa b := NULL)) (wa L) NULL (wa b) (b # fl)"
proof -
  from ok B have bb: "16 dvd b" "b + 8 < 2 ^ 64" "L + 32 \<le> b" and okfl: "nodes_ok L B fl" by simp_all
  let ?m1 = "m(wa (b + 8) := h)"
  let ?m2 = "?m1(h := wa b)"
  let ?m3 = "?m2(wa b := NULL)"
  have h: "h = (if fl = [] then wa L else wa (hd fl))" using d by (rule dlist_head)
  have hne: "h \<noteq> wa (b + 8)"
  proof (cases fl)
    case Nil
    with h bb L B show ?thesis using aligned_off8 [of b L] by (simp add: wa_inj)
  next
    case (Cons x xs)
    with okfl B have "16 dvd x" "x < 2 ^ 64" by simp_all
    with h Cons bb show ?thesis using aligned_off8 [of b x] by (simp add: wa_inj)
  qed
  have "dlist ?m1 (wa L) NULL h fl = dlist m (wa L) NULL h fl"
  proof (rule dlist_upd_other [OF okfl B])
    show "b + 8 < 2 ^ 64" by fact
    fix x assume x: "x \<in> set fl"
    from nodes_okD [OF okfl x] have "16 dvd x" by simp
    with x b bb show "b + 8 \<noteq> x \<and> b + 8 \<noteq> x + 8" using aligned_off8 [of b x] by auto
  qed
  with d have "dlist ?m1 (wa L) NULL h fl" by simp
  then have "dlist ?m2 (wa L) (wa b) h fl" by (rule dlist_set_prev [OF _ dist okfl B])
  moreover have "dlist ?m3 (wa L) (wa b) h fl = dlist ?m2 (wa L) (wa b) h fl"
  proof (rule dlist_upd_other [OF okfl B])
    show "b < 2 ^ 64" using bb by simp
    fix x assume x: "x \<in> set fl"
    from nodes_okD [OF okfl x] have "16 dvd x" by simp
    with x b bb show "b \<noteq> x \<and> b \<noteq> x + 8" using aligned_off8 [of x b] by auto
  qed
  ultimately have "dlist ?m3 (wa L) (wa b) h fl" by simp
  moreover have "?m3 (wa (b + 8)) = h" using hne bb by (simp add: wa_inj)
  moreover have "?m3 (wa b) = NULL" by simp
  ultimately show ?thesis by (simp del: fun_upd_apply)
qed


text \<open>The effect of \<^verbatim>\<open>remove_node\<close> on the list.\<close>

lemma dlist_suffix:
  "dlist m lo p c (ys @ zs) \<Longrightarrow> \<exists>p' c'. dlist m lo p' c' zs"
  by (induction ys arbitrary: p c) auto

lemma dlist_next_of:
  assumes "dlist m lo p c (ys @ b # zs)"
  shows "m (wa (b + 8)) = (if zs = [] then lo else wa (hd zs))"
proof -
  from dlist_suffix [OF assms] obtain p' c' where "dlist m lo p' c' (b # zs)" by blast
  then have "dlist m lo (wa b) (m (wa (b + 8))) zs" by simp
  then show ?thesis by (rule dlist_head)
qed

lemma next_not_link:
  assumes nxt: "nxt = (if zs = [] then wa L else wa (hd zs))"
    and ok: "nodes_ok L B zs" and B: "B < 2 ^ 64" and L: "16 dvd L"
    and y: "16 dvd y" "L + 32 \<le> y" "y + 32 \<le> B" "y \<notin> set zs"
  shows "nxt \<noteq> wa y \<and> nxt \<noteq> wa (y + 8)"
proof (cases zs)
  case Nil
  with nxt y B L show ?thesis using aligned_off8 [of y L] by (simp add: wa_inj)
next
  case (Cons z zs')
  with ok B have "16 dvd z" "z < 2 ^ 64" by simp_all
  with nxt Cons y B show ?thesis using aligned_off8 [of y z] by (auto simp: wa_inj)
qed

lemma dlist_remove_head:
  assumes d: "dlist m (wa L) p c (b # zs)" and dist: "distinct (b # zs)"
    and ok: "nodes_ok L B (b # zs)" and B: "B < 2 ^ 64"
  shows "c = wa b \<and> m (wa b) = p \<and>
         dlist (m(m (wa (b + 8)) := p)) (wa L) p (m (wa (b + 8))) zs"
proof -
  from d have "dlist m (wa L) (wa b) (m (wa (b + 8))) zs" by simp
  then have "dlist (m(m (wa (b + 8)) := p)) (wa L) p (m (wa (b + 8))) zs"
    using dist ok B by (intro dlist_set_prev [where B = B]) simp_all
  with d show ?thesis by simp
qed

lemma dlist_remove_inner:
  assumes d: "dlist m (wa L) p c (ys @ b # zs)" and ne: "ys \<noteq> []"
    and dist: "distinct (ys @ b # zs)"
    and ok: "nodes_ok L B (ys @ b # zs)" and B: "B < 2 ^ 64" and L: "16 dvd L"
  shows "m (wa b) = wa (last ys) \<and>
         dlist (m(wa (last ys + 8) := m (wa (b + 8)), m (wa (b + 8)) := wa (last ys)))
           (wa L) p c (ys @ zs)"
  using d ne dist ok
proof (induction ys arbitrary: p c)
  case Nil
  then show ?case by simp
next
  case (Cons y ys')
  note prems = Cons.prems and IH = Cons.IH
  let ?nxt = "m (wa (b + 8))"
  have nxt: "?nxt = (if zs = [] then wa L else wa (hd zs))"
    using prems(1) by (rule dlist_next_of)
  from prems have c: "c = wa y" and my: "m (wa y) = p"
    and rest: "dlist m (wa L) (wa y) (m (wa (y + 8))) (ys' @ b # zs)" by simp_all
  from prems B have y: "16 dvd y" "L + 32 \<le> y" "y + 32 \<le> B" "y \<notin> set zs" "y + 8 < 2 ^ 64"
    and okzs: "nodes_ok L B zs" and distzs: "distinct zs" by simp_all
  have nl: "?nxt \<noteq> wa y \<and> ?nxt \<noteq> wa (y + 8)"
    using nxt okzs B L y(1-4) by (rule next_not_link)
  show ?case
  proof (cases ys')
    case Nil
    with rest have yb: "m (wa (y + 8)) = wa b" and bprev: "m (wa b) = wa y"
      and dz: "dlist m (wa L) (wa b) ?nxt zs" by simp_all
    have "dlist (m(wa (y + 8) := ?nxt)) (wa L) (wa b) ?nxt zs = dlist m (wa L) (wa b) ?nxt zs"
    proof (rule dlist_upd_other [OF okzs B])
      show "y + 8 < 2 ^ 64" by fact
      fix x assume x: "x \<in> set zs"
      from nodes_okD [OF okzs x] have "16 dvd x" by simp
      with x y show "y + 8 \<noteq> x \<and> y + 8 \<noteq> x + 8" using aligned_off8 [of y x] by auto
    qed
    with dz have "dlist (m(wa (y + 8) := ?nxt)) (wa L) (wa b) ?nxt zs" by simp
    then have "dlist (m(wa (y + 8) := ?nxt, ?nxt := wa y)) (wa L) (wa y) ?nxt zs"
      by (rule dlist_set_prev [OF _ distzs okzs B])
    moreover have "(m(wa (y + 8) := ?nxt, ?nxt := wa y)) (wa y) = p"
      using nl my y by (auto simp: wa_inj)
    moreover have "(m(wa (y + 8) := ?nxt, ?nxt := wa y)) (wa (y + 8)) = ?nxt"
      using nl by auto
    ultimately show ?thesis using Nil c bprev by (simp del: fun_upd_apply)
  next
    case (Cons y2 ys2)
    then have ne': "ys' \<noteq> []" by simp
    from prems have dist': "distinct (ys' @ b # zs)" and ok': "nodes_ok L B (ys' @ b # zs)"
      by simp_all
    from IH [OF rest ne' dist' ok']
    have pb: "m (wa b) = wa (last ys')"
      and dl: "dlist (m(wa (last ys' + 8) := ?nxt, ?nxt := wa (last ys')))
                 (wa L) (wa y) (m (wa (y + 8))) (ys' @ zs)" by blast+
    have ly: "last ys' \<in> set ys'" using ne' by simp
    with prems(3) have "last ys' \<noteq> y" by auto
    moreover from ly ok' B have "last ys' + 8 < 2 ^ 64" "16 dvd last ys'"
      using nodes_okD [of L B "ys' @ b # zs" "last ys'"] by auto
    ultimately have
      "(m(wa (last ys' + 8) := ?nxt, ?nxt := wa (last ys'))) (wa y) = p"
      "(m(wa (last ys' + 8) := ?nxt, ?nxt := wa (last ys'))) (wa (y + 8)) = m (wa (y + 8))"
      using nl my y aligned_off8 [of "last ys'" y] by (auto simp: wa_inj)
    with dl pb c ne' show ?thesis by (simp del: fun_upd_apply)
  qed
qed

subsection \<open>The free-list operations on a state\<close>

lemma unat_brk_bound: "unat (mem_brk s) < 2 ^ 64"
  using unsigned_less [of "mem_brk s", where 'a = nat] by simp

lemma base_update [simp]:
  "base (s\<lparr>mem := m\<rparr>) = base s" "base (s\<lparr>heap_start := h\<rparr>) = base s"
  by (simp_all add: base_def)

lemma geom_update [simp]:
  "geom (s\<lparr>mem := m\<rparr>) bs = geom s bs" "geom (s\<lparr>heap_start := h\<rparr>) bs = geom s bs"
  by (simp_all add: geom_def)

lemma shape_cells_update [simp]:
  "shape_cells (s\<lparr>mem := m\<rparr>) bs = shape_cells s bs"
  "shape_cells (s\<lparr>heap_start := h\<rparr>) bs = shape_cells s bs"
  by (simp_all add: shape_cells_def)

lemma kept_cells_update [simp]:
  "kept_cells (s\<lparr>mem := m\<rparr>) pre n post = kept_cells s pre n post"
  "kept_cells (s\<lparr>heap_start := h\<rparr>) pre n post = kept_cells s pre n post"
  by (simp_all add: kept_cells_def)

lemma same_src_refl [simp]: "same_src s s"
  by (simp add: same_src_def)

lemma same_src_trans: "same_src s s' \<Longrightarrow> same_src s' s'' \<Longrightarrow> same_src s s''"
  by (simp add: same_src_def)

lemma same_src_mem [simp]: "same_src s (s'\<lparr>mem := m\<rparr>) = same_src s s'"
  by (simp add: same_src_def)

lemma same_src_heap_start [simp]: "same_src s (s'\<lparr>heap_start := h\<rparr>) = same_src s s'"
  by (simp add: same_src_def)

lemma same_src_geom: "same_src s s' \<Longrightarrow> geom s' bs = geom s bs"
  by (simp add: same_src_def geom_def base_def)

lemma same_src_base: "same_src s s' \<Longrightarrow> base s' = base s"
  by (simp add: same_src_def base_def)



lemma same_cells_refl [simp]: "same_cells ts s s"
  by (simp add: same_cells_def list_all_iff)



lemma same_cellsD: "same_cells ts s s' \<Longrightarrow> t \<in> set ts \<Longrightarrow> mem s' (wa t) = mem s (wa t)"
  by (simp add: same_cells_def list_all_iff)

lemma same_cells_heap_start [simp]:
  "same_cells ts s (s'\<lparr>heap_start := h\<rparr>) = same_cells ts s s'"
  by (simp add: same_cells_def)

lemma geom_nodes_ok:
  assumes g: "geom s bs" and sub: "set fl \<subseteq> set (addrs (base s) bs)"
  shows "nodes_ok (unat (mem_heap s)) (unat (mem_brk s)) fl"
  unfolding nodes_ok_def list_all_iff
proof
  fix x assume "x \<in> set fl"
  with sub have x: "x \<in> set (addrs (base s) bs)" by blast
  from g have so: "sizes_ok bs" and al: "16 dvd base s"
    and tot: "base s + total_size bs = unat (mem_brk s)"
    by (simp_all add: geom_def base_def)
  from addrs_range [OF so x] addrs_aligned [OF so al x] tot
  show "16 dvd x \<and> unat (mem_heap s) + 32 \<le> x \<and> x + 32 \<le> unat (mem_brk s)"
    by (simp add: base_def)
qed

lemma node_cells:
  "nodes_ok (unat (mem_heap s)) (unat (mem_brk s)) fl \<Longrightarrow> x \<in> set fl \<Longrightarrow>
   cell s x \<and> cell s (x + 8)"
  by (drule (1) nodes_okD) (auto simp: cell_def)

lemma lo_cell: "geom s bs \<Longrightarrow> cell s (unat (mem_heap s))"
  by (auto simp: geom_def cell_def base_def)

lemma shape_cells_not_links:
  assumes g: "geom s bs" and t: "t \<in> set (shape_cells s bs)"
  shows "t < 2 ^ 64 \<and> t \<noteq> unat (mem_heap s) \<and>
         (\<forall>x\<in>set (addrs (base s) bs). t \<noteq> x \<and> t \<noteq> x + 8)"
proof -
  from g have so: "sizes_ok bs" and tot: "base s + total_size bs = unat (mem_brk s)"
    by (simp_all add: geom_def)
  have B: "unat (mem_brk s) < 2 ^ 64" by (rule unat_brk_bound)
  have b8: "8 \<le> base s" by (simp add: base_def)
  consider "t = unat (mem_heap s) + 8" | "t = unat (mem_heap s) + 16"
    | "t = unat (mem_brk s) - 8" | "t \<in> set (tag_cells (base s) bs)"
    using t by (auto simp: shape_cells_def)
  then show ?thesis
  proof cases
    case 1
    with B tot show ?thesis using addrs_range [OF so] by (fastforce simp: base_def)
  next
    case 2
    with B tot show ?thesis using addrs_range [OF so] by (fastforce simp: base_def)
  next
    case 3
    with B tot show ?thesis using addrs_range [OF so] by (fastforce simp: base_def)
  next
    case 4
    from tag_cells_range [OF so b8 4] tot B have "t < 2 ^ 64" "t \<noteq> unat (mem_heap s)"
      by (simp_all add: base_def)
    with links_not_tags [OF so b8] 4 show ?thesis by blast
  qed
qed

lemma insert_head_state:
  assumes g: "geom s bs" and fl: "free_list s fl"
    and sub: "set fl \<subseteq> set (addrs (base s) bs)"
    and b: "b \<in> set (addrs (base s) bs)" "b \<notin> set fl"
  shows "\<exists>s'. insert_head (wa b) s = Some s' \<and> free_list s' (b # fl) \<and>
           same_src s s' \<and> same_cells (shape_cells s bs) s s' \<and> heap_start s' = wa b"
proof -
  let ?L = "unat (mem_heap s)" and ?B = "unat (mem_brk s)"
  let ?M = "(mem s)(wa (b + 8) := heap_start s, heap_start s := wa b, wa b := NULL)"
  let ?s' = "s\<lparr>mem := ?M, heap_start := wa b\<rparr>"
  have B: "?B < 2 ^ 64" by (rule unat_brk_bound)
  from g have L: "16 dvd ?L" by (simp add: geom_def)
  from sub b have sub': "set (b # fl) \<subseteq> set (addrs (base s) bs)" by simp
  have ok: "nodes_ok ?L ?B (b # fl)" using g sub' by (rule geom_nodes_ok)
  from fl have d: "dlist (mem s) (wa ?L) NULL (heap_start s) fl" and dist: "distinct fl"
    by (simp_all add: free_list_def wa_unat)
  have cb: "cell s b" "cell s (b + 8)" using node_cells [OF ok, of b] by simp_all
  have hs: "heap_start s = (if fl = [] then wa ?L else wa (hd fl))"
    using d by (rule dlist_head)
  obtain h where h: "heap_start s = wa h" "cell s h" "h = ?L \<or> h \<in> set fl"
  proof (cases fl)
    case Nil
    with hs lo_cell [OF g] that show ?thesis by simp
  next
    case (Cons x xs)
    with hs node_cells [OF ok, of x] that show ?thesis by simp
  qed
  have run: "insert_head (wa b) s = Some ?s'"
    using cb h(2) by (simp add: insert_head_def set_NEXT_FREE_def set_PREV_FREE_def WSIZE_def
        wa_add_num PUT_wa h(1))
  have "dlist ?M (wa ?L) NULL (wa b) (b # fl)"
    using d dist b(2) ok B L by (rule dlist_insert)
  then have list: "free_list ?s' (b # fl)"
    using dist b(2) by (simp add: free_list_def wa_unat)
  have frame: "same_cells (shape_cells s bs) s ?s'"
    unfolding same_cells_def list_all_iff
  proof
    fix t assume t: "t \<in> set (shape_cells s bs)"
    from shape_cells_not_links [OF g t] sub' h(3)
    have "t < 2 ^ 64" "t \<noteq> b" "t \<noteq> b + 8" "t \<noteq> h" by auto
    moreover from cb h(2) have "b < 2 ^ 64" "b + 8 < 2 ^ 64" "h < 2 ^ 64"
      by (auto dest: cell_bound)
    ultimately show "mem ?s' (wa t) = mem s (wa t)"
      by (simp add: h(1) wa_inj)
  qed
  from run list frame show ?thesis by (intro exI [of _ ?s']) simp
qed


lemma remove_node_state:
  assumes g: "geom s bs" and fl: "free_list s fl"
    and sub: "set fl \<subseteq> set (addrs (base s) bs)"
    and b: "b \<in> set fl"
  shows "\<exists>s'. remove_node (wa b) s = Some s' \<and> free_list s' (remove1 b fl) \<and>
           same_src s s' \<and> same_cells (shape_cells s bs) s s'"
proof -
  let ?L = "unat (mem_heap s)" and ?B = "unat (mem_brk s)"
  let ?nxt = "mem s (wa (b + 8))"
  have B: "?B < 2 ^ 64" by (rule unat_brk_bound)
  from g have L: "16 dvd ?L" by (simp add: geom_def)
  have ok: "nodes_ok ?L ?B fl" using g sub by (rule geom_nodes_ok)
  from fl have d: "dlist (mem s) (wa ?L) NULL (heap_start s) fl" and dist: "distinct fl"
    by (simp_all add: free_list_def wa_unat)
  from split_list_first [OF b] obtain ys zs where split: "fl = ys @ b # zs" "b \<notin> set ys"
    by blast
  with dist have rem: "remove1 b fl = ys @ zs" by (simp add: remove1_append)
  have distr: "distinct (remove1 b fl)" using dist by simp
  have cb: "cell s b" "cell s (b + 8)" using node_cells [OF ok b] by simp_all
  have nxt: "?nxt = (if zs = [] then wa ?L else wa (hd zs))"
    using d unfolding split(1) by (rule dlist_next_of)
  obtain n where n: "?nxt = wa n" "cell s n" "n = ?L \<or> n \<in> set fl"
  proof (cases zs)
    case Nil
    with nxt lo_cell [OF g] that show ?thesis by simp
  next
    case (Cons z zs')
    with nxt node_cells [OF ok, of z] split that show ?thesis by simp
  qed
  have frame_n: "t \<noteq> n \<and> t < 2 ^ 64 \<and> (\<forall>x\<in>set fl. t \<noteq> x \<and> t \<noteq> x + 8)"
    if "t \<in> set (shape_cells s bs)" for t
    using shape_cells_not_links [OF g that] sub n(3) by auto
  have nb: "n < 2 ^ 64" using n(2) by (rule cell_bound)
  show ?thesis
  proof (cases ys)
    case Nil
    let ?s' = "s\<lparr>heap_start := ?nxt, mem := (mem s)(?nxt := NULL)\<rparr>"
    have d0: "dlist (mem s) (wa ?L) NULL (heap_start s) (b # zs)"
      and dist0: "distinct (b # zs)" and ok0: "nodes_ok ?L ?B (b # zs)"
      using d dist ok split(1) Nil by simp_all
    from dlist_remove_head [OF d0 dist0 ok0 B]
    have hd: "mem s (wa b) = NULL"
      and dl: "dlist ((mem s)(?nxt := NULL)) (wa ?L) NULL ?nxt zs" by blast+
    have run: "remove_node (wa b) s = Some ?s'"
      using cb n(2) hd
      by (simp add: remove_node_def PREV_FREE_def NEXT_FREE_def set_PREV_FREE_def
          set_NEXT_FREE_def WSIZE_def wa_add_num GET_wa PUT_wa n(1))
    have list: "free_list ?s' (remove1 b fl)"
      using dl distr rem Nil by (simp add: free_list_def wa_unat)
    have frame: "same_cells (shape_cells s bs) s ?s'"
      using frame_n nb by (simp add: n(1) wa_inj same_cells_def list_all_iff)
    from run list frame show ?thesis by (intro exI [of _ ?s']) simp
  next
    case (Cons y ys')
    then have ne: "ys \<noteq> []" by simp
    let ?p = "last ys"
    let ?M = "(mem s)(wa (?p + 8) := ?nxt, ?nxt := wa ?p)"
    let ?s' = "s\<lparr>mem := ?M\<rparr>"
    have d0: "dlist (mem s) (wa ?L) NULL (heap_start s) (ys @ b # zs)"
      and dist0: "distinct (ys @ b # zs)" and ok0: "nodes_ok ?L ?B (ys @ b # zs)"
      using d dist ok split(1) by simp_all
    from dlist_remove_inner [OF d0 ne dist0 ok0 B L]
    have pv: "mem s (wa b) = wa ?p" and dl: "dlist ?M (wa ?L) NULL (heap_start s) (ys @ zs)"
      by blast+
    have pin: "?p \<in> set fl" using ne split(1) by simp
    then have cp: "cell s ?p" "cell s (?p + 8)" using node_cells [OF ok] by simp_all
    from nodes_okD [OF ok pin] nodes_okD [OF ok b] B
    have pb: "0 < ?p" "?p < 2 ^ 64" "?p + 8 < 2 ^ 64" "b < 2 ^ 64" "b + 8 < 2 ^ 64"
      "?p + 8 \<noteq> b" using aligned_off8 [of ?p b] by simp_all
    have pne: "?p \<noteq> b" using split(2) ne last_in_set [OF ne] by auto
    have wp: "wa ?p \<noteq> NULL" using pb by (simp add: NULL_def wa_eq_0)
    have run: "remove_node (wa b) s = Some ?s'"
      using cb cp n(2) pv wp pb pne
      by (simp add: remove_node_def PREV_FREE_def NEXT_FREE_def set_PREV_FREE_def
          set_NEXT_FREE_def WSIZE_def wa_add_num GET_wa PUT_wa n(1) wa_inj)
    have list: "free_list ?s' (remove1 b fl)"
      using dl distr rem by (simp add: free_list_def wa_unat)
    have frame: "same_cells (shape_cells s bs) s ?s'"
      unfolding same_cells_def list_all_iff
    proof
      fix t assume "t \<in> set (shape_cells s bs)"
      from frame_n [OF this] pin have "t \<noteq> n" "t < 2 ^ 64" "t \<noteq> ?p + 8" by auto
      with nb pb show "mem ?s' (wa t) = mem s (wa t)" by (simp add: n(1) wa_inj)
    qed
    from run list frame show ?thesis by (intro exI [of _ ?s']) simp
  qed
qed

subsection \<open>Tags in a well-formed heap\<close>

lemma tag_cells_aligned:
  "sizes_ok bs \<Longrightarrow> 16 dvd a \<Longrightarrow> 16 \<le> a \<Longrightarrow> t \<in> set (tag_cells a bs) \<Longrightarrow> 8 dvd t"
proof (induction bs arbitrary: a)
  case Nil
  then show ?case by simp
next
  case (Cons b bs)
  obtain sz al where b: "b = (sz, al)" by (cases b)
  from Cons.prems b have so: "sizes_ok bs" and sz: "16 dvd sz" "32 \<le> sz" by simp_all
  from Cons.prems(2) sz have a': "16 dvd a + sz" "16 \<le> a + sz" by simp_all
  show ?case
  proof (cases "t = a - 8 \<or> t = a + sz - 16")
    case True
    from Cons.prems(2,3) sz have "8 dvd a - 8" "8 dvd a + sz - 16" by presburger+
    with True show ?thesis by auto
  next
    case False
    with Cons.prems b have "t \<in> set (tag_cells (a + sz) bs)" by simp
    with Cons.IH [OF so a'] show ?thesis by blast
  qed
qed

lemma shape_cells_cell:
  assumes g: "geom s bs" and t: "t \<in> set (shape_cells s bs)"
  shows "cell s t"
proof -
  from g have so: "sizes_ok bs" and tot: "base s + total_size bs = unat (mem_brk s)"
    and L: "16 dvd unat (mem_heap s)" by (simp_all add: geom_def)
  have b16: "16 dvd base s" "16 \<le> base s" using L by (simp_all add: base_def)
  have B16: "16 dvd unat (mem_brk s)" using total_aligned [OF so] b16 tot
    by (metis dvd_add)
  consider "t = unat (mem_heap s) + 8" | "t = unat (mem_heap s) + 16"
    | "t = unat (mem_brk s) - 8" | "t \<in> set (tag_cells (base s) bs)"
    using t by (auto simp: shape_cells_def)
  then show ?thesis
  proof cases
    case 1
    with L tot show ?thesis unfolding cell_def base_def by presburger
  next
    case 2
    with L tot show ?thesis unfolding cell_def base_def by presburger
  next
    case 3
    with L B16 tot show ?thesis unfolding cell_def base_def by presburger
  next
    case 4
    from tag_cells_range [OF so _ 4] tag_cells_aligned [OF so b16 4] tot
    show ?thesis by (simp add: cell_def base_def)
  qed
qed

lemma put_shape_cell:
  assumes g: "geom s bs" and fl: "free_list s fl"
    and sub: "set fl \<subseteq> set (addrs (base s) bs)" and t: "t \<in> set (shape_cells s bs)"
  shows "PUT (wa t) v s = Some (s\<lparr>mem := (mem s)(wa t := v)\<rparr>)"
    and "free_list (s\<lparr>mem := (mem s)(wa t := v)\<rparr>) fl"
proof -
  show "PUT (wa t) v s = Some (s\<lparr>mem := (mem s)(wa t := v)\<rparr>)"
    using shape_cells_cell [OF g t] by (rule PUT_wa)
  have ok: "nodes_ok (unat (mem_heap s)) (unat (mem_brk s)) fl" using g sub by (rule geom_nodes_ok)
  have "dlist ((mem s)(wa t := v)) (mem_heap s) NULL (heap_start s) fl =
        dlist (mem s) (mem_heap s) NULL (heap_start s) fl"
  proof (rule dlist_upd_other [OF ok unat_brk_bound])
    from shape_cells_not_links [OF g t] sub
    show "t < 2 ^ 64" and "\<And>x. x \<in> set fl \<Longrightarrow> t \<noteq> x \<and> t \<noteq> x + 8" by auto
  qed
  with fl show "free_list (s\<lparr>mem := (mem s)(wa t := v)\<rparr>) fl"
    by (simp add: free_list_def)
qed

lemma same_cells_put:
  assumes "\<And>u. u \<in> set ts \<Longrightarrow> u < 2 ^ 64 \<and> u \<noteq> t" and "t < 2 ^ 64"
  shows "same_cells ts s (s\<lparr>mem := (mem s)(wa t := v)\<rparr>)"
  using assms by (simp add: same_cells_def list_all_iff wa_inj)

lemma heap_shape_geom: "heap_shape s bs \<Longrightarrow> geom s bs"
  by (auto simp: heap_shape_def geom_def base_def dest: blocks_seg_sizes)

lemma heap_shape_iff:
  "heap_shape s bs \<longleftrightarrow>
     geom s bs \<and> mem s (wa (unat (mem_heap s) + 8)) = tag 16 True \<and>
     mem s (wa (unat (mem_heap s) + 16)) = tag 16 True \<and>
     mem s (wa (unat (mem_brk s) - 8)) = tag 0 True \<and>
     blocks_seg (mem s) (base s) bs"
  by (auto simp: heap_shape_def geom_def base_def dest: blocks_seg_sizes)

text \<open>The block in the middle of a layout.\<close>

lemma geom_block:
  assumes g: "geom s (pre @ (sz, al) # post)" and a: "a = base s + total_size pre"
  shows "16 dvd a" "unat (mem_heap s) + 32 \<le> a" "16 dvd sz" "32 \<le> sz"
    "a + sz + total_size post = unat (mem_brk s)" "a + sz \<le> unat (mem_brk s)"
    "a \<in> set (addrs (base s) (pre @ (sz, al) # post))"
    "a - 8 \<in> set (shape_cells s (pre @ (sz, al) # post))"
    "a + sz - 16 \<in> set (shape_cells s (pre @ (sz, al) # post))"
proof -
  from g have L: "16 dvd unat (mem_heap s)" and so: "sizes_ok pre" "16 dvd sz" "32 \<le> sz"
    and tot: "base s + (total_size pre + (sz + total_size post)) = unat (mem_brk s)"
    by (simp_all add: geom_def)
  from total_aligned [OF so(1)] L show "16 dvd a" by (simp add: a base_def)
  show "unat (mem_heap s) + 32 \<le> a" by (simp add: a base_def)
  show "16 dvd sz" "32 \<le> sz" by fact+
  from tot show "a + sz + total_size post = unat (mem_brk s)" "a + sz \<le> unat (mem_brk s)"
    by (simp_all add: a)
  show "a \<in> set (addrs (base s) (pre @ (sz, al) # post))"
    by (simp add: addrs_append a)
  show "a - 8 \<in> set (shape_cells s (pre @ (sz, al) # post))"
    "a + sz - 16 \<in> set (shape_cells s (pre @ (sz, al) # post))"
    by (simp_all add: shape_cells_def tag_cells_append a)
qed

lemma shape_block:
  assumes h: "heap_shape s (pre @ (sz, al) # post)" and a: "a = base s + total_size pre"
  shows "mem s (wa (a - 8)) = tag sz al" "mem s (wa (a + sz - 16)) = tag sz al"
  using h by (simp_all add: heap_shape_iff blocks_seg_append a)

text \<open>The tags that \<^verbatim>\<open>coalesce\<close> reads for the neighbours.\<close>

lemma prev_footer:
  assumes h: "heap_shape s (pre @ b # post)" and a: "a = base s + total_size pre"
  shows "\<exists>psz. 16 dvd psz \<and> mem s (wa (a - 16)) = tag psz (prev_alloc_of pre)"
proof (cases pre rule: rev_cases)
  case Nil
  with h a have "mem s (wa (a - 16)) = tag 16 True"
    by (simp add: heap_shape_iff base_def add.commute)
  with Nil show ?thesis by (intro exI [of _ 16]) (simp add: prev_alloc_of_def)
next
  case (snoc pre' p)
  obtain psz pal where p: "p = (psz, pal)" by (cases p)
  have eq: "pre @ b # post = pre' @ (psz, pal) # (b # post)" using snoc p by simp
  from shape_block(2) [OF h [unfolded eq] refl] geom_block(3) [OF heap_shape_geom [OF h [unfolded eq]] refl]
  have "mem s (wa (base s + total_size pre' + psz - 16)) = tag psz pal" "16 dvd psz" by simp_all
  with snoc p a show ?thesis by (auto simp: prev_alloc_of_def add.assoc)
qed

lemma next_header:
  assumes h: "heap_shape s (pre @ (sz, al) # post)" and a: "a = base s + total_size pre"
  shows "\<exists>nsz. 16 dvd nsz \<and> mem s (wa (a + sz - 8)) = tag nsz (next_alloc_of post)"
proof (cases post)
  case Nil
  from geom_block(5) [OF heap_shape_geom [OF h] a] Nil have "a + sz = unat (mem_brk s)" by simp
  with h have "mem s (wa (a + sz - 8)) = tag 0 True" by (simp add: heap_shape_iff)
  with Nil show ?thesis by (intro exI [of _ 0]) (simp add: next_alloc_of_def)
next
  case (Cons n post')
  obtain nsz nal where n: "n = (nsz, nal)" by (cases n)
  have eq: "pre @ (sz, al) # post = (pre @ [(sz, al)]) @ (nsz, nal) # post'" using Cons n by simp
  from shape_block(1) [OF h [unfolded eq] refl] geom_block(3) [OF heap_shape_geom [OF h [unfolded eq]] refl]
  have "mem s (wa (base s + (total_size pre + sz) - 8)) = tag nsz nal" "16 dvd nsz" by simp_all
  with Cons n a show ?thesis by (auto simp: next_alloc_of_def add.assoc)
qed

subsection \<open>Replacing a stretch of blocks\<close>

lemma heap_shape_same:
  assumes h: "heap_shape s bs" and src: "same_src s s'"
    and same: "same_cells (shape_cells s bs) s s'"
  shows "heap_shape s' bs"
proof -
  have eq: "mem s' (wa t) = mem s (wa t)" if "t \<in> set (shape_cells s bs)" for t
    using same that by (rule same_cellsD)
  have "blocks_seg (mem s') (base s) bs = blocks_seg (mem s) (base s) bs"
    by (rule blocks_seg_cong) (simp add: eq shape_cells_def)
  moreover have "mem s' (wa (unat (mem_heap s) + 8)) = mem s (wa (unat (mem_heap s) + 8))"
    "mem s' (wa (unat (mem_heap s) + 16)) = mem s (wa (unat (mem_heap s) + 16))"
    "mem s' (wa (unat (mem_brk s) - 8)) = mem s (wa (unat (mem_brk s) - 8))"
    by (simp_all add: eq shape_cells_def)
  ultimately show ?thesis
    using h src same_src_geom [OF src, of bs] same_src_base [OF src]
    by (simp add: heap_shape_iff same_src_def)
qed


lemma kept_cells_outside:
  assumes g: "geom s (pre @ mid @ post)" and u: "u \<in> set (kept_cells s pre (total_size mid) post)"
    and mid: "32 \<le> total_size mid"
  shows "u < 2 ^ 64 \<and> (u + 16 \<le> base s + total_size pre \<or>
           base s + total_size pre + total_size mid \<le> u + 8)"
proof -
  from g have so: "sizes_ok pre" "sizes_ok post"
    and tot: "base s + (total_size pre + (total_size mid + total_size post)) = unat (mem_brk s)"
    by (simp_all add: geom_def)
  have B: "unat (mem_brk s) < 2 ^ 64" by (rule unat_brk_bound)
  have b8: "8 \<le> base s" "8 \<le> base s + total_size pre + total_size mid" by (simp_all add: base_def)
  consider "u = unat (mem_heap s) + 8" | "u = unat (mem_heap s) + 16"
    | "u = unat (mem_brk s) - 8" | "u \<in> set (tag_cells (base s) pre)"
    | "u \<in> set (tag_cells (base s + total_size pre + total_size mid) post)"
    using u by (auto simp: kept_cells_def)
  then show ?thesis
  proof cases
    case 1
    with B tot show ?thesis by (simp add: base_def)
  next
    case 2
    with B tot show ?thesis by (simp add: base_def)
  next
    case 3
    with B tot mid show ?thesis by (simp add: base_def)
  next
    case 4
    from tag_cells_range [OF so(1) b8(1) 4] B tot show ?thesis by simp
  next
    case 5
    from tag_cells_range [OF so(2) b8(2) 5] B tot show ?thesis by simp
  qed
qed

lemma heap_shape_replace:
  assumes h: "heap_shape s (pre @ mid @ post)" and src: "same_src s s'"
    and same: "same_cells (kept_cells s pre (total_size mid) post) s s'"
    and new: "blocks_seg (mem s') (base s + total_size pre) new"
    and tot: "total_size new = total_size mid"
  shows "heap_shape s' (pre @ new @ post)"
proof -
  have eq: "mem s' (wa t) = mem s (wa t)"
    if "t \<in> set (kept_cells s pre (total_size mid) post)" for t
    using same that by (rule same_cellsD)
  have "blocks_seg (mem s') (base s) pre = blocks_seg (mem s) (base s) pre"
    by (rule blocks_seg_cong) (simp add: eq kept_cells_def)
  moreover have "blocks_seg (mem s') (base s + total_size pre + total_size mid) post =
      blocks_seg (mem s) (base s + total_size pre + total_size mid) post"
    by (rule blocks_seg_cong) (simp add: eq kept_cells_def)
  moreover have "mem s' (wa (unat (mem_heap s) + 8)) = mem s (wa (unat (mem_heap s) + 8))"
    "mem s' (wa (unat (mem_heap s) + 16)) = mem s (wa (unat (mem_heap s) + 16))"
    "mem s' (wa (unat (mem_brk s) - 8)) = mem s (wa (unat (mem_brk s) - 8))"
    by (simp_all add: eq kept_cells_def)
  moreover have "geom s' (pre @ new @ post)"
    using heap_shape_geom [OF h] blocks_seg_sizes [OF new] tot src
    by (simp add: geom_def same_src_def base_def)
  ultimately show ?thesis
    using h src new tot same_src_base [OF src]
    by (simp add: heap_shape_iff same_src_def blocks_seg_append add.assoc)
qed

subsection \<open>Writing the tags of a merged block and inserting it\<close>

lemma total_size_pos: "sizes_ok bs \<Longrightarrow> bs \<noteq> [] \<Longrightarrow> 32 \<le> total_size bs \<and> 16 dvd total_size bs"
  by (induction bs) (auto simp: total_aligned)

lemma first_tag_cell: "bs \<noteq> [] \<Longrightarrow> a - 8 \<in> set (tag_cells a bs)"
  by (cases bs) auto

lemma last_tag_cell:
  "sizes_ok bs \<Longrightarrow> bs \<noteq> [] \<Longrightarrow> a + total_size bs - 16 \<in> set (tag_cells a bs)"
proof (induction bs arbitrary: a)
  case Nil
  then show ?case by simp
next
  case (Cons b bs)
  obtain sz al where b: "b = (sz, al)" by (cases b)
  show ?case
  proof (cases "bs = []")
    case True
    with b show ?thesis by simp
  next
    case False
    from Cons.prems b have "sizes_ok bs" by simp
    from Cons.IH [OF this False, of "a + sz"] b show ?thesis by (simp add: add.assoc)
  qed
qed

lemma free_addrs_range:
  "sizes_ok bs \<Longrightarrow> x \<in> set (free_addrs a bs) \<Longrightarrow> a \<le> x \<and> x + 32 \<le> a + total_size bs"
  using addrs_range free_addrs_in_addrs by blast

lemma retag_insert:
  assumes h: "heap_shape s (pre @ mid @ post)" and fl: "free_list s fl"
    and p: "p = base s + total_size pre" and M: "M = total_size mid" and ne: "mid \<noteq> []"
    and set: "set fl = set (free_addrs (base s) pre) \<union> set (free_addrs (p + M) post)"
    and naf: "no_adjacent_free (pre @ (M, False) # post)"
  shows "\<exists>s'. (do {
             s2 \<leftarrow> PUT (HDRP (wa p)) (PACK (wa M) 0) s;
             ftr \<leftarrow> FTRP (wa p) s2;
             s3 \<leftarrow> PUT ftr (PACK (wa M) 0) s2;
             s4 \<leftarrow> insert_head (wa p) s3;
             Some (wa p, s4)
           }) = Some (wa p, s') \<and>
           heap_inv s' (pre @ (M, False) # post) (p # fl) \<and> same_src s s'"
proof -
  let ?O = "pre @ mid @ post" and ?N = "pre @ (M, False) # post"
  let ?s2 = "s\<lparr>mem := (mem s)(wa (p - 8) := tag M False)\<rparr>"
  let ?s3 = "?s2\<lparr>mem := (mem ?s2)(wa (p + M - 16) := tag M False)\<rparr>"
  from h have g: "geom s ?O" by (rule heap_shape_geom)
  then have so: "sizes_ok pre" "sizes_ok mid" "sizes_ok post"
    and tot: "base s + (total_size pre + (total_size mid + total_size post)) = unat (mem_brk s)"
    by (simp_all add: geom_def)
  from total_size_pos [OF so(2) ne] M have Mb: "32 \<le> M" "16 dvd M" by simp_all
  have p8: "8 \<le> p" "16 \<le> p" by (simp_all add: p base_def)
  have sub: "set fl \<subseteq> set (addrs (base s) ?O)"
    using set by (auto simp: addrs_append p M add.assoc dest: free_addrs_in_addrs)
  have hc: "p - 8 \<in> set (shape_cells s ?O)"
    using first_tag_cell [OF ne, of p] by (simp add: shape_cells_def tag_cells_append p)
  have fc: "p + M - 16 \<in> set (shape_cells s ?O)"
    using last_tag_cell [OF so(2) ne, of p] by (simp add: shape_cells_def tag_cells_append p M)
  have put1: "PUT (wa (p - 8)) (tag M False) s = Some ?s2" and fl2: "free_list ?s2 fl"
    using put_shape_cell [OF g fl sub hc] by simp_all
  have src2: "same_src s ?s2" by simp
  have g2: "geom ?s2 ?O" using g same_src_geom [OF src2] by simp
  have sub2: "set fl \<subseteq> set (addrs (base ?s2) ?O)" using sub by simp
  have fc2: "p + M - 16 \<in> set (shape_cells ?s2 ?O)" using fc by simp
  have put2: "PUT (wa (p + M - 16)) (tag M False) ?s2 = Some ?s3" and fl3: "free_list ?s3 fl"
    using put_shape_cell [OF g2 fl2 sub2 fc2] by simp_all
  have c1: "cell ?s2 (p - 8)" using shape_cells_cell [OF g hc] by simp
  have ftr: "FTRP (wa p) ?s2 = Some (wa (p + M - 16))"
    using c1 p8 Mb by (intro FTRP_wa [where al = False]) simp_all
  have pb: "p - 8 < 2 ^ 64" "p + M - 16 < 2 ^ 64"
    using shape_cells_cell [OF g hc] shape_cells_cell [OF g fc] by (auto dest: cell_bound)
  have src3: "same_src s ?s3" by simp
  have same3: "same_cells (kept_cells s pre (total_size mid) post) s ?s3"
    unfolding same_cells_def list_all_iff
  proof
    fix u assume "u \<in> set (kept_cells s pre (total_size mid) post)"
    from kept_cells_outside [OF g this] Mb M p
    have "u < 2 ^ 64" "u \<noteq> p - 8" "u \<noteq> p + M - 16" by auto
    with pb show "mem ?s3 (wa u) = mem s (wa u)" by (simp add: wa_inj)
  qed
  have new: "blocks_seg (mem ?s3) (base s + total_size pre) [(M, False)]"
    using Mb pb p by (simp add: wa_inj)
  have h3: "heap_shape ?s3 ?N"
    using heap_shape_replace [OF h src3 same3 new] M by simp
  have g3: "geom ?s3 ?N" using h3 by (rule heap_shape_geom)
  have b3: "base ?s3 = base s" by simp
  have sub3: "set fl \<subseteq> set (addrs (base ?s3) ?N)"
    using set by (auto simp: addrs_append p dest: free_addrs_in_addrs)
  have pin: "p \<in> set (addrs (base ?s3) ?N)" by (simp add: addrs_append p)
  have pnot: "p \<notin> set fl"
  proof
    assume "p \<in> set fl"
    with set have "p \<in> set (free_addrs (base s) pre) \<or> p \<in> set (free_addrs (p + M) post)" by blast
    with free_addrs_range [OF so(1), of p "base s"] free_addrs_range [OF so(3), of p "p + M"] Mb p
    show False by auto
  qed
  from insert_head_state [OF g3 fl3 sub3 pin pnot] obtain s'
    where ins: "insert_head (wa p) ?s3 = Some s'" and fl': "free_list s' (p # fl)"
      and src': "same_src ?s3 s'" and same': "same_cells (shape_cells ?s3 ?N) ?s3 s'"
    by blast
  have h': "heap_shape s' ?N" using h3 src' same' by (rule heap_shape_same)
  have srcf: "same_src s s'" using src3 src' by (rule same_src_trans)
  have "set (p # fl) = set (free_addrs (base s') ?N)"
    using set same_src_base [OF srcf] by (auto simp: free_addrs_append p)
  with h' fl' naf have inv: "heap_inv s' ?N (p # fl)" by (simp add: heap_inv_def)
  have "(do {
             s2 \<leftarrow> PUT (HDRP (wa p)) (PACK (wa M) 0) s;
             ftr \<leftarrow> FTRP (wa p) s2;
             s3 \<leftarrow> PUT ftr (PACK (wa M) 0) s2;
             s4 \<leftarrow> insert_head (wa p) s3;
             Some (wa p, s4)
           }) = Some (wa p, s')"
    using put1 put2 ftr ins p8 by (simp add: HDRP_wa tag_free_eq)
  with inv srcf show ?thesis by blast
qed

subsection \<open>The four cases of \<^verbatim>\<open>coalesce\<close>\<close>

lemma neighbour_cells:
  assumes g: "geom s (pre @ (sz, al) # post)" and a: "a = base s + total_size pre"
  shows "a - 16 \<in> set (shape_cells s (pre @ (sz, al) # post))"
    and "a + sz - 8 \<in> set (shape_cells s (pre @ (sz, al) # post))"
proof -
  from g have so: "sizes_ok pre" "sizes_ok post"
    and tot: "base s + (total_size pre + (sz + total_size post)) = unat (mem_brk s)"
    by (simp_all add: geom_def)
  show "a - 16 \<in> set (shape_cells s (pre @ (sz, al) # post))"
  proof (cases "pre = []")
    case True
    then show ?thesis by (simp add: shape_cells_def a base_def)
  next
    case False
    from last_tag_cell [OF so(1) False, of "base s"]
    show ?thesis by (simp add: shape_cells_def tag_cells_append a)
  qed
  show "a + sz - 8 \<in> set (shape_cells s (pre @ (sz, al) # post))"
  proof (cases "post = []")
    case True
    with tot have "a + sz = unat (mem_brk s)" by (simp add: a)
    then show ?thesis by (simp add: shape_cells_def)
  next
    case False
    from first_tag_cell [OF False, of "a + sz"]
    show ?thesis by (simp add: shape_cells_def tag_cells_append a)
  qed
qed

lemma coalesce_reads:
  assumes h: "heap_shape s (pre @ (sz, al) # post)" and a: "a = base s + total_size pre"
  shows "GET_ALLOC (PSUB (wa a) DSIZE) s = Some (of_bool (prev_alloc_of pre))"
    and "NEXT_BLKP (wa a) s = Some (wa (a + sz))"
    and "GET_ALLOC (HDRP (wa (a + sz))) s = Some (of_bool (next_alloc_of post))"
    and "GET_SIZE (HDRP (wa a)) s = Some (wa sz)"
proof -
  from h have g: "geom s (pre @ (sz, al) # post)" by (rule heap_shape_geom)
  note blk = geom_block [OF g a] and tags = shape_block [OF h a]
  have a16: "16 \<le> a" "8 \<le> a" "8 \<le> a + sz" using blk(2) by simp_all
  have hc: "cell s (a - 8)" using shape_cells_cell [OF g blk(8)] .
  from prev_footer [OF h a] obtain psz
    where p: "16 dvd psz" "mem s (wa (a - 16)) = tag psz (prev_alloc_of pre)" by blast
  from next_header [OF h a] obtain nsz
    where n: "16 dvd nsz" "mem s (wa (a + sz - 8)) = tag nsz (next_alloc_of post)" by blast
  show "GET_ALLOC (PSUB (wa a) DSIZE) s = Some (of_bool (prev_alloc_of pre))"
    using shape_cells_cell [OF g neighbour_cells(1) [OF g a]] p a16
    by (simp add: PSUB_def DSIZE_def wa_sub_num GET_ALLOC_wa)
  show "NEXT_BLKP (wa a) s = Some (wa (a + sz))"
    using hc a16(2) tags(1) blk(3) by (rule NEXT_BLKP_wa)
  show "GET_ALLOC (HDRP (wa (a + sz))) s = Some (of_bool (next_alloc_of post))"
    using shape_cells_cell [OF g neighbour_cells(2) [OF g a]] n a16
    by (simp add: HDRP_wa GET_ALLOC_wa)
  show "GET_SIZE (HDRP (wa a)) s = Some (wa sz)"
    using hc a16 tags(1) blk(3) by (simp add: HDRP_wa GET_SIZE_wa)
qed

lemma coalesce_pre_facts:
  assumes c: "coalesce_pre s pre sz post fl" and a: "a = base s + total_size pre"
  shows "heap_shape s (pre @ (sz, False) # post)" "free_list s fl"
    "set fl = set (free_addrs (base s) pre) \<union> set (free_addrs (a + sz) post)"
    "set fl \<subseteq> set (addrs (base s) (pre @ (sz, False) # post))"
    "a \<notin> set fl" "no_adjacent_free pre" "no_adjacent_free post"
proof -
  from c show h: "heap_shape s (pre @ (sz, False) # post)" and "free_list s fl"
    and set: "set fl = set (free_addrs (base s) pre) \<union> set (free_addrs (a + sz) post)"
    and "no_adjacent_free pre" "no_adjacent_free post"
    by (simp_all add: coalesce_pre_def a)
  from heap_shape_geom [OF h] have so: "sizes_ok pre" "sizes_ok post" "32 \<le> sz"
    by (simp_all add: geom_def)
  show "set fl \<subseteq> set (addrs (base s) (pre @ (sz, False) # post))"
    using set by (auto simp: addrs_append a dest: free_addrs_in_addrs)
  show "a \<notin> set fl"
  proof
    assume "a \<in> set fl"
    with set have "a \<in> set (free_addrs (base s) pre) \<or> a \<in> set (free_addrs (a + sz) post)"
      by blast
    with free_addrs_range [OF so(1), of a "base s"] free_addrs_range [OF so(2), of a "a + sz"] so(3) a
    show False by auto
  qed
qed

lemma word_bool_simps:
  "(of_bool True :: 64 word) \<noteq> 0" "(of_bool False :: 64 word) = 0"
  by simp_all

lemma coalesce_none:
  assumes c: "coalesce_pre s pre sz post fl" and a: "a = base s + total_size pre"
    and pa: "prev_alloc_of pre" and na: "next_alloc_of post"
  shows "\<exists>s'. coalesce (wa a) s = Some (wa a, s') \<and>
           heap_inv s' (pre @ (sz, False) # post) (a # fl) \<and> same_src s s'"
proof -
  let ?O = "pre @ (sz, False) # post"
  note f = coalesce_pre_facts [OF c a]
  note r = coalesce_reads [OF f(1) a]
  have g: "geom s ?O" using f(1) by (rule heap_shape_geom)
  from insert_head_state [OF g f(2) f(4) geom_block(7) [OF g a] f(5)] obtain s'
    where ins: "insert_head (wa a) s = Some s'" and fl': "free_list s' (a # fl)"
      and src: "same_src s s'" and same: "same_cells (shape_cells s ?O) s s'" by blast
  have h': "heap_shape s' ?O" using f(1) src same by (rule heap_shape_same)
  have naf: "no_adjacent_free ?O"
    using f(6,7) pa na
    by (auto simp: no_adjacent_free_append no_adjacent_free_Cons prev_alloc_of_def
        next_alloc_of_def split: if_splits)
  have "set (a # fl) = set (free_addrs (base s') ?O)"
    using f(3) same_src_base [OF src] by (auto simp: free_addrs_append a)
  with h' fl' naf have "heap_inv s' ?O (a # fl)" by (simp add: heap_inv_def)
  moreover have "coalesce (wa a) s = Some (wa a, s')"
    using r ins pa na by (simp add: coalesce_def)
  ultimately show ?thesis using src by blast
qed

lemma free_list_distinct: "free_list s fl \<Longrightarrow> distinct fl"
  by (simp add: free_list_def)

lemmas coalesce_simps =
  option.simps bind.bind_lunit Let_def word_bool_simps simp_thms if_True if_False
  wa_add prod.inject not_True_eq_False not_False_eq_True

lemma coalesce_next:
  assumes c: "coalesce_pre s pre sz post fl" and a: "a = base s + total_size pre"
    and pa: "prev_alloc_of pre" and post: "post = (nsz, False) # post'"
  shows "\<exists>s'. coalesce (wa a) s = Some (wa a, s') \<and>
           heap_inv s' (pre @ (sz + nsz, False) # post') (a # remove1 (a + sz) fl) \<and>
           same_src s s'"
proof -
  let ?O = "pre @ (sz, False) # post" and ?n = "a + sz"
  let ?mid = "[(sz, False), (nsz, False)]"
  note f = coalesce_pre_facts [OF c a]
  note r = coalesce_reads [OF f(1) a]
  have g: "geom s ?O" using f(1) by (rule heap_shape_geom)
  then have so: "sizes_ok pre" "sizes_ok post'" "32 \<le> sz" "32 \<le> nsz"
    by (simp_all add: geom_def post)
  have na: "\<not> next_alloc_of post" by (simp add: post next_alloc_of_def)
  have O2: "?O = (pre @ [(sz, False)]) @ (nsz, False) # post'" by (simp add: post)
  have n2: "?n = base s + total_size (pre @ [(sz, False)])" by (simp add: a)
  have rn: "GET_SIZE (HDRP (wa ?n)) s = Some (wa nsz)"
    using coalesce_reads(4) [OF f(1) [unfolded O2] n2] .
  have nin: "?n \<in> set fl" using f(3) by (simp add: post)
  from remove_node_state [OF g f(2) f(4) nin] obtain s1
    where rem: "remove_node (wa ?n) s = Some s1" and fl1: "free_list s1 (remove1 ?n fl)"
      and src1: "same_src s s1" and same1: "same_cells (shape_cells s ?O) s s1" by blast
  have h1: "heap_shape s1 (pre @ ?mid @ post')"
    using heap_shape_same [OF f(1) src1 same1] by (simp add: post)
  have b1: "base s1 = base s" using src1 by (rule same_src_base)
  have set1: "set (remove1 ?n fl) =
      set (free_addrs (base s1) pre) \<union> set (free_addrs (a + (sz + nsz)) post')"
  proof -
    have "?n \<notin> set (free_addrs (base s) pre)" "?n \<notin> set (free_addrs (?n + nsz) post')"
      using free_addrs_range [OF so(1), of ?n "base s"]
        free_addrs_range [OF so(2), of ?n "?n + nsz"] so(3,4) a by auto
    with f(3) free_list_distinct [OF f(2)] show ?thesis
      by (auto simp: post b1 add.assoc)
  qed
  have naf: "no_adjacent_free (pre @ (sz + nsz, False) # post')"
    using f(6,7) pa
    by (auto simp: post no_adjacent_free_append no_adjacent_free_Cons prev_alloc_of_def
        split: if_splits)
  from retag_insert [OF h1 fl1 _ _ _ set1 naf] obtain s'
    where eq: "(do {
             s2 \<leftarrow> PUT (HDRP (wa a)) (PACK (wa (sz + nsz)) 0) s1;
             ftr \<leftarrow> FTRP (wa a) s2;
             s3 \<leftarrow> PUT ftr (PACK (wa (sz + nsz)) 0) s2;
             s4 \<leftarrow> insert_head (wa a) s3;
             Some (wa a, s4)
           }) = Some (wa a, s')"
      and inv: "heap_inv s' (pre @ (sz + nsz, False) # post') (a # remove1 ?n fl)"
      and src': "same_src s1 s'"
    by (auto simp: a b1)
  have "coalesce (wa a) s = Some (wa a, s')"
    unfolding coalesce_def using pa na
    by (simp only: r rn rem eq coalesce_simps)
  with inv same_src_trans [OF src1 src'] show ?thesis by blast
qed


lemma prev_blkp_read:
  assumes h: "heap_shape s (pre' @ (psz, pal) # post)" and p: "p = base s + total_size pre'"
  shows "PREV_BLKP (wa (p + psz)) s = Some (wa p)"
proof -
  from h have g: "geom s (pre' @ (psz, pal) # post)" by (rule heap_shape_geom)
  note blk = geom_block [OF g p] and tags = shape_block [OF h p]
  have c: "cell s (p + psz - 16)" using shape_cells_cell [OF g blk(9)] .
  have "PREV_BLKP (wa (p + psz)) s = Some (wa (p + psz - psz))"
    using c blk(3,4) tags(2) by (intro PREV_BLKP_wa [where al = pal]) simp_all
  then show ?thesis by simp
qed

lemma coalesce_prev:
  assumes c: "coalesce_pre s pre sz post fl" and a: "a = base s + total_size pre"
    and pre: "pre = pre' @ [(psz, False)]" and na: "next_alloc_of post"
  shows "\<exists>s'. coalesce (wa a) s = Some (wa (a - psz), s') \<and>
           heap_inv s' (pre' @ (sz + psz, False) # post) ((a - psz) # remove1 (a - psz) fl) \<and>
           same_src s s'"
proof -
  let ?O = "pre @ (sz, False) # post" and ?p = "a - psz"
  let ?mid = "[(psz, False), (sz, False)]"
  note f = coalesce_pre_facts [OF c a]
  note r = coalesce_reads [OF f(1) a]
  have g: "geom s ?O" using f(1) by (rule heap_shape_geom)
  then have so: "sizes_ok pre'" "sizes_ok post" "32 \<le> sz" "32 \<le> psz"
    by (simp_all add: geom_def pre)
  have pa: "\<not> prev_alloc_of pre" by (simp add: pre prev_alloc_of_def)
  have O2: "?O = pre' @ (psz, False) # ((sz, False) # post)" by (simp add: pre)
  have p2: "?p = base s + total_size pre'" and ap: "a = ?p + psz" by (simp_all add: a pre)
  have rp: "PREV_BLKP (wa a) s = Some (wa ?p)"
    using prev_blkp_read [OF f(1) [unfolded O2] p2] ap by simp
  have rs: "GET_SIZE (HDRP (wa ?p)) s = Some (wa psz)"
    using coalesce_reads(4) [OF f(1) [unfolded O2] p2] .
  have pin: "?p \<in> set fl" using f(3) by (simp add: pre free_addrs_append p2)
  from remove_node_state [OF g f(2) f(4) pin] obtain s1
    where rem: "remove_node (wa ?p) s = Some s1" and fl1: "free_list s1 (remove1 ?p fl)"
      and src1: "same_src s s1" and same1: "same_cells (shape_cells s ?O) s s1" by blast
  have h1: "heap_shape s1 (pre' @ ?mid @ post)"
    using heap_shape_same [OF f(1) src1 same1] by (simp add: pre)
  have b1: "base s1 = base s" using src1 by (rule same_src_base)
  have set1: "set (remove1 ?p fl) =
      set (free_addrs (base s1) pre') \<union> set (free_addrs (?p + (sz + psz)) post)"
  proof -
    have "?p \<notin> set (free_addrs (base s) pre')" "?p \<notin> set (free_addrs (a + sz) post)"
      using free_addrs_range [OF so(1), of ?p "base s"]
        free_addrs_range [OF so(2), of ?p "a + sz"] so(3,4) p2 ap by auto
    moreover have "?p + (sz + psz) = a + sz" using ap by simp
    moreover have "set fl = set (free_addrs (base s) pre') \<union> {?p} \<union> set (free_addrs (a + sz) post)"
      using f(3) p2 by (simp add: pre free_addrs_append)
    ultimately show ?thesis using free_list_distinct [OF f(2)]
      by (auto simp: b1)
  qed
  have naf: "no_adjacent_free (pre' @ (sz + psz, False) # post)"
    using f(6,7) na
    by (auto simp: pre no_adjacent_free_append no_adjacent_free_Cons next_alloc_of_def
        split: if_splits)
  from retag_insert [OF h1 fl1 _ _ _ set1 naf] obtain s'
    where eq: "(do {
             s2 \<leftarrow> PUT (HDRP (wa ?p)) (PACK (wa (sz + psz)) 0) s1;
             ftr \<leftarrow> FTRP (wa ?p) s2;
             s3 \<leftarrow> PUT ftr (PACK (wa (sz + psz)) 0) s2;
             s4 \<leftarrow> insert_head (wa ?p) s3;
             Some (wa ?p, s4)
           }) = Some (wa ?p, s')"
      and inv: "heap_inv s' (pre' @ (sz + psz, False) # post) (?p # remove1 ?p fl)"
      and src': "same_src s1 s'"
    by (auto simp: p2 b1)
  have "coalesce (wa a) s = Some (wa ?p, s')"
    unfolding coalesce_def using pa na
    by (simp only: r rp rs rem eq coalesce_simps)
  with inv same_src_trans [OF src1 src'] show ?thesis by blast
qed

lemma coalesce_both:
  assumes c: "coalesce_pre s pre sz post fl" and a: "a = base s + total_size pre"
    and pre: "pre = pre' @ [(psz, False)]" and post: "post = (nsz, False) # post'"
  shows "\<exists>s'. coalesce (wa a) s = Some (wa (a - psz), s') \<and>
           heap_inv s' (pre' @ (sz + (psz + nsz), False) # post')
             ((a - psz) # remove1 (a + sz) (remove1 (a - psz) fl)) \<and>
           same_src s s'"
proof -
  let ?O = "pre @ (sz, False) # post" and ?p = "a - psz" and ?n = "a + sz"
  let ?mid = "[(psz, False), (sz, False), (nsz, False)]"
  note f = coalesce_pre_facts [OF c a]
  note r = coalesce_reads [OF f(1) a]
  have g: "geom s ?O" using f(1) by (rule heap_shape_geom)
  then have so: "sizes_ok pre'" "sizes_ok post'" "32 \<le> sz" "32 \<le> psz" "32 \<le> nsz"
    by (simp_all add: geom_def pre post)
  have pa: "\<not> prev_alloc_of pre" by (simp add: pre prev_alloc_of_def)
  have na: "\<not> next_alloc_of post" by (simp add: post next_alloc_of_def)
  have O2: "?O = pre' @ (psz, False) # ((sz, False) # post)" by (simp add: pre)
  have O3: "?O = (pre @ [(sz, False)]) @ (nsz, False) # post'" by (simp add: post)
  have p2: "?p = base s + total_size pre'" and ap: "a = ?p + psz" by (simp_all add: a pre)
  have n2: "?n = base s + total_size (pre @ [(sz, False)])" by (simp add: a)
  have rp: "PREV_BLKP (wa a) s = Some (wa ?p)"
    using prev_blkp_read [OF f(1) [unfolded O2] p2] ap by simp
  have rs: "GET_SIZE (HDRP (wa ?p)) s = Some (wa psz)"
    using coalesce_reads(4) [OF f(1) [unfolded O2] p2] .
  have rn: "GET_SIZE (HDRP (wa ?n)) s = Some (wa nsz)"
    using coalesce_reads(4) [OF f(1) [unfolded O3] n2] .
  have pin: "?p \<in> set fl" using f(3) by (simp add: pre free_addrs_append p2)
  have nin: "?n \<in> set fl" using f(3) by (simp add: post)
  have pn: "?p \<noteq> ?n" using so ap by simp
  from remove_node_state [OF g f(2) f(4) pin] obtain s1
    where rem1: "remove_node (wa ?p) s = Some s1" and fl1: "free_list s1 (remove1 ?p fl)"
      and src1: "same_src s s1" and same1: "same_cells (shape_cells s ?O) s s1" by blast
  have h1: "heap_shape s1 ?O" using f(1) src1 same1 by (rule heap_shape_same)
  have b1: "base s1 = base s" using src1 by (rule same_src_base)
  have g1: "geom s1 ?O" using h1 by (rule heap_shape_geom)
  have r1: "NEXT_BLKP (wa a) s1 = Some (wa ?n)"
    using coalesce_reads(2) [OF h1] a b1 by simp
  have sub1: "set (remove1 ?p fl) \<subseteq> set (addrs (base s1) ?O)"
    using f(4) set_remove1_subset [of ?p fl] unfolding b1 by blast
  have nin1: "?n \<in> set (remove1 ?p fl)" using nin pn by simp
  from remove_node_state [OF g1 fl1 sub1 nin1] obtain s2
    where rem2: "remove_node (wa ?n) s1 = Some s2"
      and fl2: "free_list s2 (remove1 ?n (remove1 ?p fl))"
      and src2: "same_src s1 s2" and same2: "same_cells (shape_cells s1 ?O) s1 s2" by blast
  have h2: "heap_shape s2 ?O" using h1 src2 same2 by (rule heap_shape_same)
  have b2: "base s2 = base s" using src2 b1 by (simp add: same_src_base)
  have r2: "PREV_BLKP (wa a) s2 = Some (wa ?p)"
    using prev_blkp_read [OF h2 [unfolded O2], of ?p] p2 b2 ap by simp
  have h2': "heap_shape s2 (pre' @ ?mid @ post')" using h2 by (simp add: pre post)
  have set2: "set (remove1 ?n (remove1 ?p fl)) =
      set (free_addrs (base s2) pre') \<union> set (free_addrs (?p + (sz + (psz + nsz))) post')"
  proof -
    have "?p \<notin> set (free_addrs (base s) pre')" "?p \<notin> set (free_addrs (?n + nsz) post')"
      "?n \<notin> set (free_addrs (base s) pre')" "?n \<notin> set (free_addrs (?n + nsz) post')"
      using free_addrs_range [OF so(1), of ?p "base s"]
        free_addrs_range [OF so(2), of ?p "?n + nsz"]
        free_addrs_range [OF so(1), of ?n "base s"]
        free_addrs_range [OF so(2), of ?n "?n + nsz"] so(3,4,5) p2 ap by auto
    moreover have "?p + (sz + (psz + nsz)) = ?n + nsz" using ap by simp
    moreover have "set fl = set (free_addrs (base s) pre') \<union> {?p, ?n} \<union>
        set (free_addrs (?n + nsz) post')"
      using f(3) p2 by (auto simp: pre post free_addrs_append)
    ultimately show ?thesis using free_list_distinct [OF f(2)]
      by (auto simp: b2 add.assoc)
  qed
  have naf: "no_adjacent_free (pre' @ (sz + (psz + nsz), False) # post')"
    using f(6,7)
    by (auto simp: pre post no_adjacent_free_append no_adjacent_free_Cons split: if_splits)
  from retag_insert [OF h2' fl2 _ _ _ set2 naf] obtain s'
    where eq: "(do {
             s3 \<leftarrow> PUT (HDRP (wa ?p)) (PACK (wa (sz + (psz + nsz))) 0) s2;
             ftr \<leftarrow> FTRP (wa ?p) s3;
             s4 \<leftarrow> PUT ftr (PACK (wa (sz + (psz + nsz))) 0) s3;
             s5 \<leftarrow> insert_head (wa ?p) s4;
             Some (wa ?p, s5)
           }) = Some (wa ?p, s')"
      and inv: "heap_inv s' (pre' @ (sz + (psz + nsz), False) # post')
                  (?p # remove1 ?n (remove1 ?p fl))"
      and src': "same_src s2 s'"
    by (auto simp: p2 b2)
  have "coalesce (wa a) s = Some (wa ?p, s')"
    unfolding coalesce_def using pa na
    by (simp only: r rp rs rn rem1 r1 rem2 r2 eq coalesce_simps)
  with inv same_src_trans [OF same_src_trans [OF src1 src2] src'] show ?thesis by blast
qed

subsection \<open>The result of \<^verbatim>\<open>coalesce\<close>\<close>

lemma not_prev_alloc: "\<not> prev_alloc_of pre \<Longrightarrow> pre = butlast pre @ [(fst (last pre), False)]"
  by (cases pre rule: rev_cases) (auto simp: prev_alloc_of_def)

lemma not_next_alloc: "\<not> next_alloc_of post \<Longrightarrow> post = (fst (hd post), False) # tl post"
  by (cases post) (auto simp: next_alloc_of_def)

lemma coalesce_correct:
  assumes c: "coalesce_pre s pre sz post fl" and a: "a = base s + total_size pre"
    and res: "coalesce_result pre sz post a fl = (r, bs', fl')"
  shows "\<exists>s'. coalesce (wa a) s = Some (wa r, s') \<and> heap_inv s' bs' fl' \<and> same_src s s'"
proof -
  consider "prev_alloc_of pre" "next_alloc_of post"
    | "prev_alloc_of pre" "\<not> next_alloc_of post"
    | "\<not> prev_alloc_of pre" "next_alloc_of post"
    | "\<not> prev_alloc_of pre" "\<not> next_alloc_of post" by blast
  then show ?thesis
  proof cases
    case 1
    with coalesce_none [OF c a] res show ?thesis by (auto simp: coalesce_result_def)
  next
    case 2
    with coalesce_next [OF c a 2(1) not_next_alloc [OF 2(2)]] res show ?thesis
      by (auto simp: coalesce_result_def)
  next
    case 3
    with coalesce_prev [OF c a not_prev_alloc [OF 3(1)] 3(2)] res show ?thesis
      by (auto simp: coalesce_result_def)
  next
    case 4
    with coalesce_both [OF c a not_prev_alloc [OF 4(1)] not_next_alloc [OF 4(2)]] res
    show ?thesis by (auto simp: coalesce_result_def)
  qed
qed

lemma heap_inv_head_size:
  assumes inv: "heap_inv s (pre @ (sz, al) # post) fl" and a: "a = base s + total_size pre"
  shows "block_size s (wa a) = wa sz"
proof -
  from inv have h: "heap_shape s (pre @ (sz, al) # post)" by (simp add: heap_inv_def)
  note blk = geom_block [OF heap_shape_geom [OF h] a] and tags = shape_block [OF h a]
  from blk(2) have "8 \<le> a" by simp
  with tags(1) blk(3) show ?thesis by (simp only: block_size_def HDRP_wa tag_size)
qed

text \<open>
  C1. In a heap that is well-formed except that the block at \<open>a\<close> is marked free and
  is not yet in the free list, \<^verbatim>\<open>coalesce\<close> returns: it reads the allocated flag of
  the previous block from its footer and that of the next block from its header,
  and in each of the four cases it leaves the heap described by \<open>coalesce_result\<close>,
  with the merged block at the head of the free list and nowhere else in it. When
  both neighbours are free the merged block starts where the previous block
  started and its header holds the sum of the three sizes.
\<close>

theorem coalesce_four_cases:
  assumes "coalesce_pre s pre sz post fl" and "a = base s + total_size pre"
    and "coalesce_result pre sz post a fl = (r, bs', fl')"
  shows "\<exists>s'. coalesce (wa a) s = Some (wa r, s') \<and> heap_inv s' bs' fl' \<and>
           hd fl' = r \<and> count_list fl' r = 1 \<and>
           (\<not> prev_alloc_of pre \<and> \<not> next_alloc_of post \<longrightarrow>
              r = a - fst (last pre) \<and>
              block_size s' (wa r) = wa (fst (last pre) + sz + fst (hd post)))"
proof -
  from coalesce_correct [OF assms] obtain s'
    where run: "coalesce (wa a) s = Some (wa r, s')" and inv: "heap_inv s' bs' fl'"
      and src: "same_src s s'" by blast
  from assms(3) have hdr: "hd fl' = r" "fl' \<noteq> []"
    by (auto simp: coalesce_result_def split: if_splits)
  from inv have "distinct fl'" by (simp add: heap_inv_def free_list_def)
  with hdr have cnt: "count_list fl' r = 1"
    by (cases fl') (auto simp: count_list_0_iff)
  have both: "r = a - fst (last pre) \<and>
      block_size s' (wa r) = wa (fst (last pre) + sz + fst (hd post))"
    if np: "\<not> prev_alloc_of pre" and nn: "\<not> next_alloc_of post"
  proof -
    from assms(3) np nn have r: "r = a - fst (last pre)"
      and bs': "bs' = butlast pre @ (sz + (fst (last pre) + fst (hd post)), False) # tl post"
      by (simp_all add: coalesce_result_def)
    have "total_size pre = total_size (butlast pre @ [(fst (last pre), False)])"
      using not_prev_alloc [OF np] by simp
    then have "a = base s + total_size (butlast pre) + fst (last pre)"
      using assms(2) by simp
    with r same_src_base [OF src] have "r = base s' + total_size (butlast pre)" by simp
    from heap_inv_head_size [OF inv [unfolded bs'] this] r show ?thesis
      by (simp add: add.commute add.left_commute)
  qed
  from run inv hdr(1) cnt both show ?thesis by blast
qed

theorem coalesce_four_cases_witness:
  "coalesce_pre (the before_coalesce) [(32, False)] 32 [(32, False), (32, True), (3968, False)]
     [4192, 4128, 4256] \<and>
   (\<exists>s'. coalesce (wa 4160) (the before_coalesce) = Some (wa 4128, s') \<and>
      heap_inv s' [(96, False), (32, True), (3968, False)] [4128, 4256] \<and>
      block_size s' (wa 4128) = wa 96)"
proof -
  have pre: "coalesce_pre (the before_coalesce) [(32, False)] 32
      [(32, False), (32, True), (3968, False)] [4192, 4128, 4256]"
    by (simp add: before_coalesce_def after_init_def mm_defs find_fit_from.simps
        coalesce_pre_def heap_shape_def free_list_def base_def wa_def tag_def
        insert_commute)
  have a: "4160 = base (the before_coalesce) + total_size [(32, False)]"
    by (simp add: before_coalesce_def after_init_def mm_defs find_fit_from.simps base_def)
  have res: "coalesce_result [(32, False)] 32 [(32, False), (32, True), (3968, False)] 4160
      [4192, 4128, 4256] = (4128, [(96, False), (32, True), (3968, False)], [4128, 4256])"
    by (simp add: coalesce_result_def prev_alloc_of_def next_alloc_of_def)
  from coalesce_four_cases [OF pre a res] pre show ?thesis
    by (auto simp: prev_alloc_of_def next_alloc_of_def)
qed

subsection \<open>Growing the heap\<close>


lemma heap_inv_facts:
  assumes "heap_inv s bs fl"
  shows "heap_shape s bs" "geom s bs" "free_list s fl" "no_adjacent_free bs"
    "set fl = set (free_addrs (base s) bs)" "set fl \<subseteq> set (addrs (base s) bs)"
  using assms by (auto simp: heap_inv_def heap_shape_geom dest: free_addrs_in_addrs)



subsection \<open>Initialisation\<close>







subsection \<open>The result of \<^verbatim>\<open>mm_init\<close>\<close>

text \<open>
  C8. On a source of 16 bytes the initial reservation of 32 bytes fails. The
  pointer that reports the failure is not \<^verbatim>\<open>NULL\<close>, the test \<^verbatim>\<open>== NULL\<close> of \<^verbatim>\<open>mm_init\<close> does
  not recognise it, and \<^verbatim>\<open>mm_init\<close> does not return \<open>-1\<close>: it writes through the pointer,
  outside the heap. On a source of 100 bytes the reservation succeeds and the
  extension by \<^verbatim>\<open>CHUNKSIZE\<close> fails; \<^verbatim>\<open>extend_heap\<close> recognises that failure with its
  own test, and \<^verbatim>\<open>mm_init\<close> returns \<open>-1\<close>.
\<close>

theorem mm_init_misses_failed_reservation:
  "fresh (source 4096 16) \<and>
   fst (mem_sbrk (4 * WSIZE) (source 4096 16)) = None \<and>
   sbrk_result (fst (mem_sbrk (4 * WSIZE) (source 4096 16))) \<noteq> NULL \<and>
   PUT (sbrk_result (fst (mem_sbrk (4 * WSIZE) (source 4096 16)))) 0 (source 4096 16) = None \<and>
   init_no_room = None \<and>
   fst (mem_sbrk (4 * WSIZE) (source 4096 100)) = Some 4096 \<and>
   map_option fst init_small = Some (- 1)"
  by (simp add: init_no_room_def init_small_def fresh_def mm_defs)

subsection \<open>Writing the two tags of a block\<close>




subsection \<open>\<^verbatim>\<open>mm_free\<close>\<close>


subsection \<open>\<^verbatim>\<open>place\<close>\<close>


lemma of_int_wa: "(of_int (int k) :: 64 word) = wa k"
  by (simp add: wa_def)




subsection \<open>The search for a fit in a well-formed heap\<close>



subsection \<open>The adjusted size\<close>




subsection \<open>The allocated blocks\<close>






subsection \<open>Requests in a well-formed heap\<close>





subsection \<open>Sequences of requests in a well-formed heap\<close>




section \<open>The ends of the free list\<close>




section \<open>First fit\<close>

lemma find_fit_from_path:
  "free_path s cur bs \<Longrightarrow> find_fit_from asize s cur = Some (first_fit asize s bs)"
proof (induction bs arbitrary: cur)
  case Nil
  then show ?case
    by (subst find_fit_from.simps) (simp add: first_fit_def)
next
  case (Cons b bs)
  then have path: "free_path s (mem s (b + WSIZE)) bs" and cur: "cur = b"
    and ne: "b \<noteq> mem_heap_lo s" and h: "in_heap (HDRP b) s" and n: "in_heap (b + WSIZE) s"
    by simp_all
  have rest: "find_fit_from asize s (mem s (b + WSIZE)) = Some (first_fit asize s bs)"
    by (rule Cons.IH [OF path])
  show ?case
    by (subst find_fit_from.simps)
       (simp add: cur ne h n rest GET_SIZE_def GET_def NEXT_FREE_def first_fit_def block_size_def)
qed

text \<open>
  In a well-formed heap the next-links lead from the head through the whole free
  list to the low boundary, so that \<^verbatim>\<open>find_fit\<close> returns the first fit of the free list.
\<close>

lemma dlist_free_path:
  assumes nodes: "nodes_ok (unat (mem_heap s)) (unat (mem_brk s)) xs"
  shows "dlist (mem s) (mem_heap s) prev cur xs \<Longrightarrow> free_path s cur (map wa xs)"
  using nodes
proof (induction xs arbitrary: prev cur)
  case Nil
  then show ?case by (simp add: mem_heap_lo_def)
next
  case (Cons x xs)
  note prems = Cons.prems and IH = Cons.IH
  from prems(1) have cur: "cur = wa x"
    and rest: "dlist (mem s) (mem_heap s) (wa x) (mem s (wa (x + 8))) xs" by simp_all
  from prems(2) have x: "16 dvd x" "unat (mem_heap s) + 32 \<le> x" "x + 32 \<le> unat (mem_brk s)"
    and nodes': "nodes_ok (unat (mem_heap s)) (unat (mem_brk s)) xs" by simp_all
  have B: "unat (mem_brk s) < 2 ^ 64" by (rule unat_brk_bound)
  have xb: "x < 2 ^ 64" using x(3) B by simp
  have "unat (wa x :: 64 word) \<noteq> unat (mem_heap s)" using x(2) xb by (simp add: unat_wa)
  then have ne: "wa x \<noteq> mem_heap_lo s" by (auto simp: mem_heap_lo_def)
  have x8: "8 \<le> x" using x(2) by simp
  have "8 dvd x" using x(1) by (rule dvd_trans [rotated]) simp
  then have c: "cell s (x - 8)" "cell s (x + 8)" using x x8 by (simp_all add: cell_def)
  have h: "in_heap (HDRP (wa x)) s" using in_heap_wa [OF c(1)] by (simp add: HDRP_wa x8)
  have w: "wa x + WSIZE = wa (x + 8)" by (simp add: WSIZE_def wa_add_num)
  have n: "in_heap (wa x + WSIZE) s" using in_heap_wa [OF c(2)] by (simp add: w)
  from IH [OF rest nodes'] have "free_path s (mem s (wa x + WSIZE)) (map wa xs)" by (simp add: w)
  with cur ne h n show ?case by simp
qed

lemma find_fit_heap_inv:
  assumes "heap_inv s bs fl"
  shows "find_fit asize s = Some (first_fit asize s (map wa fl))"
proof -
  note f = heap_inv_facts [OF assms]
  from f(3) have d: "dlist (mem s) (mem_heap s) NULL (heap_start s) fl"
    by (simp add: free_list_def)
  from dlist_free_path [OF geom_nodes_ok [OF f(2) f(6)] d]
  show ?thesis unfolding find_fit_def by (rule find_fit_from_path)
qed

text \<open>
  C5. When the next-links from the head of the free list lead through the blocks
  \<open>bs\<close> to the low boundary of the heap, \<^verbatim>\<open>find_fit\<close> returns the first block of \<open>bs\<close>,
  in list order, whose size is at least the requested size, and \<^verbatim>\<open>NULL\<close> when no block
  of \<open>bs\<close> is large enough.
\<close>

theorem find_fit_first_fit:
  "free_path s (heap_start s) bs \<Longrightarrow> find_fit asize s = Some (first_fit asize s bs)"
  unfolding find_fit_def by (rule find_fit_from_path)

theorem find_fit_first_fit_witness:
  "three_free \<noteq> None \<and>
   free_path (the three_free) (heap_start (the three_free)) [4288, 4128, 4352] \<and>
   block_size (the three_free) 4288 = 32 \<and>
   block_size (the three_free) 4128 = 128 \<and>
   block_size (the three_free) 4352 = 3872 \<and>
   find_fit 32 (the three_free) = Some 4288 \<and>
   find_fit 48 (the three_free) = Some 4128 \<and>
   find_fit 128 (the three_free) = Some 4128 \<and>
   find_fit 129 (the three_free) = Some 4352 \<and>
   find_fit 3873 (the three_free) = Some NULL"
proof -
  have s: "three_free \<noteq> None"
    by (simp add: three_free_def after_init_def mm_defs find_fit_from.simps)
  have p: "free_path (the three_free) (heap_start (the three_free)) [4288, 4128, 4352]"
    by (simp add: three_free_def after_init_def mm_defs find_fit_from.simps)
  have b: "block_size (the three_free) 4288 = 32" "block_size (the three_free) 4128 = 128"
    "block_size (the three_free) 4352 = 3872"
    by (simp_all add: block_size_def three_free_def after_init_def mm_defs find_fit_from.simps)
  have f: "first_fit 32 (the three_free) [4288, 4128, 4352] = 4288"
    "first_fit 48 (the three_free) [4288, 4128, 4352] = 4128"
    "first_fit 128 (the three_free) [4288, 4128, 4352] = 4128"
    "first_fit 129 (the three_free) [4288, 4128, 4352] = 4352"
    "first_fit 3873 (the three_free) [4288, 4128, 4352] = NULL"
    by (simp_all add: first_fit_def b)
  from find_fit_first_fit [OF p, of 32] find_fit_first_fit [OF p, of 48]
    find_fit_first_fit [OF p, of 128] find_fit_first_fit [OF p, of 129]
    find_fit_first_fit [OF p, of 3873] s p b f
  show ?thesis by simp
qed

section \<open>Requests whose size adjustment wraps around\<close>

text \<open>
  C6. The request \<open>2^64 - 31\<close> is larger than \<^verbatim>\<open>DSIZE\<close>, its adjusted size is 0, and
  \<^verbatim>\<open>mm_malloc\<close> returns the non-null pointer 4128 for it, to a block that is 4096
  bytes long and still marked free.
\<close>

theorem mm_malloc_wrapped_request:
  "adjusted_size (2 ^ 64 - 31) = 0 \<and>
   map_option fst run_wrap_first = Some 4128 \<and>
   Option.bind (map_option snd run_wrap_first) (GET_SIZE (HDRP 4128)) = Some 4096 \<and>
   Option.bind (map_option snd run_wrap_first) (GET_ALLOC (HDRP 4128)) = Some 0"
  by (simp add: run_wrap_first_def after_init_def mm_defs find_fit_from.simps)

text \<open>
  C4. After \<^verbatim>\<open>mm_malloc(16)\<close>, which returns 4128, and \<^verbatim>\<open>mm_malloc(2^64 - 31)\<close>, which
  returns 4160, the block at 4128 has the header word 33 and the footer word 1.
\<close>

theorem header_footer_differ_after_wrapped_request:
  "map_option fst run_wrap = Some 4128 \<and>
   map_option (fst \<circ> snd) run_wrap = Some 4160 \<and>
   Option.bind (map_option (snd \<circ> snd) run_wrap) (GET (HDRP 4128)) = Some 33 \<and>
   Option.bind (map_option (snd \<circ> snd) run_wrap) (FTRP 4128) = Some 4144 \<and>
   Option.bind (map_option (snd \<circ> snd) run_wrap) (GET 4144) = Some 1"
  by (simp add: run_wrap_def after_init_def mm_defs find_fit_from.simps)

text \<open>
  C3. At the end of the run \<open>run_adjacent\<close> the block at 4320 is free, the block
  that follows it in address order is the block at 8192, and that block is free
  as well.
\<close>

theorem adjacent_free_blocks_after_wrapped_request:
  "Option.bind run_adjacent (GET_ALLOC (HDRP 4320)) = Some 0 \<and>
   Option.bind run_adjacent (GET_SIZE (HDRP 4320)) = Some 3872 \<and>
   Option.bind run_adjacent (NEXT_BLKP 4320) = Some 8192 \<and>
   Option.bind run_adjacent (GET_ALLOC (HDRP 8192)) = Some 0 \<and>
   Option.bind run_adjacent (GET_SIZE (HDRP 8192)) = Some 32"
  by (simp add: run_adjacent_def after_init_def mm_defs find_fit_from.simps)

section \<open>Blocks larger than an \<^verbatim>\<open>int\<close>\<close>

text \<open>
  C2. After \<^verbatim>\<open>mm_malloc(2^32)\<close> and \<^verbatim>\<open>mm_free\<close> of its result the free list holds one
  block, at 4128, of \<open>2^32 + 4112\<close> bytes. Placing a request of 32 bytes in it
  leaves an allocated block of 32 bytes and a free block of 4080 bytes: the
  other \<open>2^32\<close> bytes belong to no block.
\<close>

theorem place_loses_bytes:
  "Option.bind (run_large (2 ^ 32)) (find_fit 32) = Some 4128 \<and>
   Option.bind (run_large (2 ^ 32)) (GET (HDRP 4128)) = Some (2 ^ 32 + 4112) \<and>
   Option.bind (Option.bind (run_large (2 ^ 32)) (place 4128 32)) (GET (HDRP 4128)) = Some 33 \<and>
   Option.bind (Option.bind (run_large (2 ^ 32)) (place 4128 32)) (NEXT_BLKP 4128) = Some 4160 \<and>
   Option.bind (Option.bind (run_large (2 ^ 32)) (place 4128 32)) (GET (HDRP 4160)) = Some 4080 \<and>
   Option.bind (Option.bind (run_large (2 ^ 32)) (place 4128 32)) (FTRP 4160) = Some 8224 \<and>
   Option.bind (Option.bind (run_large (2 ^ 32)) (place 4128 32)) (GET 8224) = Some 4080"
  by (simp add: run_large_def mm_defs find_fit_from.simps)

text \<open>
  C10. After \<^verbatim>\<open>mm_malloc(2^31)\<close> and \<^verbatim>\<open>mm_free\<close> of its result, \<^verbatim>\<open>mm_malloc(16)\<close> adjusts
  the request to 32 bytes, \<^verbatim>\<open>find_fit\<close> chooses the block at 4128, of \<open>2^31 + 4112\<close>
  bytes, and the value that \<^verbatim>\<open>place\<close> computes for \<^verbatim>\<open>free_space_left\<close> is negative.
\<close>

theorem free_space_left_negative:
  "adjusted_size 16 = 32 \<and>
   Option.bind (run_large (2 ^ 31)) (find_fit 32) = Some 4128 \<and>
   Option.bind (run_large (2 ^ 31)) (GET_SIZE (HDRP 4128)) = Some (2 ^ 31 + 4112) \<and>
   free_space_left (2 ^ 31 + 4112) 32 = - 2147479568 \<and>
   Option.bind (Option.bind (run_large (2 ^ 31)) (place 4128 32)) (GET (HDRP 4128))
     = Some (2 ^ 31 + 4113)"
  by (simp add: run_large_def mm_defs find_fit_from.simps)

section \<open>The heap checker\<close>

text \<open>
  C9. Right after \<^verbatim>\<open>mm_init\<close> the walk from the prologue block, at 4112, finds every
  block aligned, with equal header and footer, and ends at a well-formed epilogue.
  \<^verbatim>\<open>check_heap\<close> starts at \<^verbatim>\<open>heap_start\<close>, which is the head of the free list, at 4128,
  reads the size 4096 where it expects the prologue, and reports failure.
\<close>

theorem check_heap_fails_after_init:
  "map_option heap_start after_init = Some 4128 \<and>
   Option.bind after_init (GET (HDRP 4112)) = Some 17 \<and>
   Option.bind after_init (\<lambda>s. check_heap_from s 4112) = Some True \<and>
   Option.bind after_init (GET_SIZE (HDRP 4128)) = Some 4096 \<and>
   Option.bind after_init check_heap = Some False"
  by (simp add: after_init_def mm_defs check_heap_from.simps)

end
